theory Spec2Isabelle
  imports Main
begin

section \<open>JavaScript strings\<close>

text \<open>
  A JavaScript string is a sequence of UTF-16 code units.  A code unit is modelled by its
  number; \<open>js\<close> turns an ASCII literal into such a sequence.  Positions, \<open>length\<close> and
  \<open>slice\<close> of the source count code units, as list positions do here.
\<close>

type_synonym jsstring = "nat list"

definition js :: "string \<Rightarrow> jsstring" where
  "js s = map of_char s"

text \<open>
  The white space of \<open>String.prototype.trim\<close> and of the class escape \<open>\s\<close>: the
  ECMAScript WhiteSpace and LineTerminator code points.
\<close>

definition isWhiteSpace :: "nat \<Rightarrow> bool" where
  "isWhiteSpace c =
     (c = 9 \<or> c = 10 \<or> c = 11 \<or> c = 12 \<or> c = 13 \<or> c = 32 \<or> c = 160 \<or> c = 5760
      \<or> (8192 \<le> c \<and> c \<le> 8202) \<or> c = 8232 \<or> c = 8233 \<or> c = 8239 \<or> c = 8287
      \<or> c = 12288 \<or> c = 65279)"

definition trim :: "jsstring \<Rightarrow> jsstring" where
  "trim s = rev (dropWhile isWhiteSpace (rev (dropWhile isWhiteSpace s)))"

text \<open>\<open>s.slice(a, b)\<close> and \<open>s.slice(a)\<close> for indices that are not negative.\<close>

definition slice :: "jsstring \<Rightarrow> nat \<Rightarrow> nat \<Rightarrow> jsstring" where
  "slice s a b = take (b - a) (drop a s)"

definition sliceFrom :: "jsstring \<Rightarrow> nat \<Rightarrow> jsstring" where
  "sliceFrom s a = drop a s"

section \<open>Regular expressions of the source\<close>

text \<open>
  Every regular expression literal of the source is a sequence of single-character atoms,
  each with at most one quantifier, plus the assertions \<open>^\<close> and \<open>$\<close>.  The matcher below
  is the backtracking matcher of ECMAScript restricted to that shape: a greedy quantifier
  tries the longest repetition first, a lazy one the shortest.
\<close>

datatype atom =
    Ch nat              \<comment> \<open>a literal character\<close>
  | NotCh nat           \<comment> \<open>\<open>[^c]\<close>\<close>
  | Range nat nat       \<comment> \<open>\<open>[a-b]\<close>\<close>
  | OneOf "nat list"    \<comment> \<open>\<open>[abc]\<close>\<close>
  | Space               \<comment> \<open>\<open>\s\<close>\<close>
  | Digit               \<comment> \<open>\<open>\d\<close>\<close>
  | AnyCh               \<comment> \<open>\<open>[\s\S]\<close>\<close>

datatype item =
    One atom
  | Opt atom            \<comment> \<open>\<open>a?\<close>\<close>
  | Star atom           \<comment> \<open>\<open>a*\<close>\<close>
  | Plus atom           \<comment> \<open>\<open>a+\<close>\<close>
  | Lazy atom           \<comment> \<open>\<open>a*?\<close>\<close>
  | AtLeast nat atom    \<comment> \<open>\<open>a{n,}\<close>\<close>
  | Bol                 \<comment> \<open>\<open>^\<close>\<close>
  | Eol                 \<comment> \<open>\<open>$\<close>\<close>

type_synonym regex = "item list"

text \<open>
  Canonicalisation under the flag \<open>i\<close>.  All characters written in the patterns of the
  source are ASCII; for a comparison against an ASCII character the ECMAScript
  canonicalisation (upper case, unless that would map a non-ASCII character into ASCII)
  agrees with ASCII upper-casing.
\<close>

definition canon :: "nat \<Rightarrow> nat" where
  "canon c = (if 97 \<le> c \<and> c \<le> 122 then c - 32 else c)"

fun accepts :: "bool \<Rightarrow> atom \<Rightarrow> nat \<Rightarrow> bool" where
  "accepts ic (Ch p) c = (if ic then canon c = canon p else c = p)"
| "accepts ic (NotCh p) c = (if ic then canon c \<noteq> canon p else c \<noteq> p)"
| "accepts ic (Range lo hi) c =
     (if ic then list_ex (\<lambda>a. canon a = canon c) [lo..<Suc hi] else lo \<le> c \<and> c \<le> hi)"
| "accepts ic (OneOf ps) c =
     (if ic then list_ex (\<lambda>a. canon a = canon c) ps else c \<in> set ps)"
| "accepts ic Space c = isWhiteSpace c"
| "accepts ic Digit c = (48 \<le> c \<and> c \<le> 57)"
| "accepts ic AnyCh c = True"

text \<open>
  \<open>rmatch ic re bol s\<close> matches \<open>re\<close> at the beginning of \<open>s\<close> and returns the length of
  the match the backtracking search finds first; \<open>ic\<close> is the flag \<open>i\<close>, \<open>bol\<close> tells
  whether \<open>s\<close> starts at index 0 of the whole input.
\<close>

function rmatch :: "bool \<Rightarrow> regex \<Rightarrow> bool \<Rightarrow> jsstring \<Rightarrow> nat option" where
  "rmatch ic [] bol s = Some 0"
| "rmatch ic (Bol # r) bol s = (if bol then rmatch ic r bol s else None)"
| "rmatch ic (Eol # r) bol s = (if s = [] then rmatch ic r bol s else None)"
| "rmatch ic (One a # r) bol [] = None"
| "rmatch ic (One a # r) bol (c # cs) =
     (if accepts ic a c then map_option Suc (rmatch ic r False cs) else None)"
| "rmatch ic (Opt a # r) bol [] = rmatch ic r bol []"
| "rmatch ic (Opt a # r) bol (c # cs) =
     (if accepts ic a c
      then (case rmatch ic r False cs of
              Some n \<Rightarrow> Some (Suc n)
            | None \<Rightarrow> rmatch ic r bol (c # cs))
      else rmatch ic r bol (c # cs))"
| "rmatch ic (Star a # r) bol [] = rmatch ic r bol []"
| "rmatch ic (Star a # r) bol (c # cs) =
     (if accepts ic a c
      then (case rmatch ic (Star a # r) False cs of
              Some n \<Rightarrow> Some (Suc n)
            | None \<Rightarrow> rmatch ic r bol (c # cs))
      else rmatch ic r bol (c # cs))"
| "rmatch ic (Plus a # r) bol [] = None"
| "rmatch ic (Plus a # r) bol (c # cs) =
     (if accepts ic a c then map_option Suc (rmatch ic (Star a # r) False cs) else None)"
| "rmatch ic (Lazy a # r) bol [] = rmatch ic r bol []"
| "rmatch ic (Lazy a # r) bol (c # cs) =
     (case rmatch ic r bol (c # cs) of
        Some n \<Rightarrow> Some n
      | None \<Rightarrow>
          (if accepts ic a c then map_option Suc (rmatch ic (Lazy a # r) False cs)
           else None))"
| "rmatch ic (AtLeast k a # r) bol [] =
     (if k = 0 then rmatch ic (Star a # r) bol [] else None)"
| "rmatch ic (AtLeast k a # r) bol (c # cs) =
     (if k = 0 then rmatch ic (Star a # r) bol (c # cs)
      else if accepts ic a c then map_option Suc (rmatch ic (AtLeast (k - 1) a # r) False cs)
      else None)"
  by pat_completeness auto

fun weight :: "item \<Rightarrow> nat" where
  "weight (AtLeast n a) = 2"
| "weight _ = 1"

termination rmatch
  by (relation "measures [\<lambda>(ic, re, bol, s). length s,
                           \<lambda>(ic, re, bol, s). sum_list (map weight re)]") auto

lemma rmatch_le: "rmatch ic re bol s = Some n \<Longrightarrow> n \<le> length s"
  by (induction ic re bol s arbitrary: n rule: rmatch.induct)
     (auto split: if_splits option.splits)

text \<open>
  \<open>s.replace(re, f)\<close> for a regular expression with the flag \<open>g\<close>: the matches are
  searched from left to right, each search starting where the previous match ended (one
  character further after an empty match); \<open>f\<close> maps the matched text to its replacement.
\<close>

function replaceFrom :: "bool \<Rightarrow> regex \<Rightarrow> (jsstring \<Rightarrow> jsstring) \<Rightarrow> bool \<Rightarrow> jsstring \<Rightarrow> jsstring" where
  "replaceFrom ic re f bol [] = (case rmatch ic re bol [] of None \<Rightarrow> [] | Some n \<Rightarrow> f [])"
| "replaceFrom ic re f bol (c # cs) =
     (case rmatch ic re bol (c # cs) of
        None \<Rightarrow> c # replaceFrom ic re f False cs
      | Some n \<Rightarrow>
          (if n = 0 then f [] @ c # replaceFrom ic re f False cs
           else f (take n (c # cs)) @ replaceFrom ic re f False (drop n (c # cs))))"
  by pat_completeness auto

termination replaceFrom
  by (relation "measure (\<lambda>(ic, re, f, bol, s). length s)") auto

definition replaceAll :: "bool \<Rightarrow> regex \<Rightarrow> jsstring \<Rightarrow> jsstring \<Rightarrow> jsstring" where
  "replaceAll ic re rep s = replaceFrom ic re (\<lambda>m. rep) True s"

text \<open>A literal piece of a pattern.\<close>

definition lit :: "string \<Rightarrow> regex" where
  "lit s = map (\<lambda>c. One (Ch (of_char c))) s"

section \<open>HTML to plain text\<close>

definition cu :: "char \<Rightarrow> nat" where
  "cu c = of_char c"

text \<open>
  \<open>String.fromCharCode(parseInt(d, 10))\<close> for a string \<open>d\<close> of decimal digits.
  \<open>parseInt\<close> yields the Number nearest to the integer written (round to nearest, ties to
  even, on a significand of 53 bits; exact below \<open>2 ^ 53\<close>), and \<open>fromCharCode\<close> keeps the
  low 16 bits of it.  An integer too large for a Number becomes \<open>Infinity\<close>, whose code unit
  is 0, which is also what the low 16 bits of the rounded integer are.
\<close>

definition parseInt :: "jsstring \<Rightarrow> nat" where
  "parseInt d = foldl (\<lambda>v c. 10 * v + (c - 48)) 0 d"

fun bits :: "nat \<Rightarrow> nat" where
  "bits n = (if n = 0 then 0 else Suc (bits (n div 2)))"

definition toNumber :: "nat \<Rightarrow> nat" where
  "toNumber n =
     (let e = bits n - 53; q = n div 2 ^ e; r = n mod 2 ^ e
      in if e = 0 then n
         else if 2 ^ e < 2 * r \<or> (2 * r = 2 ^ e \<and> odd q) then (q + 1) * 2 ^ e
         else q * 2 ^ e)"

definition fromCharCode :: "nat \<Rightarrow> jsstring" where
  "fromCharCode n = [n mod 65536]"

text \<open>
  The callback of the last replacement receives the text of the group \<open>(\d+)\<close>: the match
  without its first two characters \<open>&#\<close> and its last character \<open>;\<close>.
\<close>

definition numericRef :: "jsstring \<Rightarrow> jsstring" where
  "numericRef m = fromCharCode (toNumber (parseInt (take (length m - 3) (drop 2 m))))"

definition decodeHtmlEntities :: "jsstring \<Rightarrow> jsstring" where
  "decodeHtmlEntities s =
     replaceFrom False (lit ''&#'' @ [Plus Digit, One (Ch (cu CHR '';''))]) numericRef True
       (replaceAll False (lit ''&#39;'') [cu CHR 0x27]
         (replaceAll False (lit ''&quot;'') [cu CHR 0x22]
           (replaceAll False (lit ''&gt;'') (js ''>'')
             (replaceAll False (lit ''&lt;'') (js ''<'')
               (replaceAll False (lit ''&amp;'') (js ''&'')
                 (replaceAll False (lit ''&nbsp;'') (js '' '') s))))))"

definition notGt :: atom where
  "notGt = NotCh (cu CHR ''>'')"

definition gt :: item where
  "gt = One (Ch (cu CHR ''>''))"

definition htmlToPlain :: "jsstring \<Rightarrow> jsstring" where
  "htmlToPlain html =
     (if html = [] then []
      else
        let out = html;
            out = replaceAll True (lit ''</li>'' @ [Star Space] @ lit ''<li>'')
                    (js ''</li>\<newline><li>'') out;
            out = replaceAll True (lit ''<li'' @ [Star notGt, gt]) (js ''\<newline>- '') out;
            out = replaceAll True (lit ''</li>'') [] out;
            out = replaceAll True (lit ''<br'' @ [Star Space, Opt (Ch (cu CHR ''/'')), gt])
                    (js ''\<newline>'') out;
            out = replaceAll True (lit ''</p>'' @ [Star Space] @ lit ''<p'' @ [Star notGt, gt])
                    (js ''\<newline>\<newline>'') out;
            out = replaceAll True (lit ''<p'' @ [Star notGt, gt]) [] out;
            out = replaceAll True (lit ''</p>'') (js ''\<newline>'') out;
            out = replaceAll False [One (Ch (cu CHR ''<'')), Plus notGt, gt] [] out;
            out = trim
                    (replaceAll False [AtLeast 3 (Ch 10)] (js ''\<newline>\<newline>'')
                      (replaceAll False [Plus (OneOf [32, 9]), One (Ch 10)] (js ''\<newline>'')
                        (replaceAll False [One (Ch 13)] []
                          (decodeHtmlEntities out))))
        in out)"

section \<open>Sections under a heading\<close>

text \<open>
  \<open>search\<close> looks for the leftmost position of \<open>s\<close> at which the expression matches and
  returns that position with the length of the match.  \<open>test\<close> is \<open>RegExp.prototype.test\<close>
  and \<open>exec\<close> is \<open>RegExp.prototype.exec\<close> of an expression with the flag \<open>g\<close>, whose search
  starts at \<open>lastIndex\<close>.  An expression passed as an argument is the pair of its flag \<open>i\<close>
  and its items; it is taken to carry neither \<open>g\<close> nor \<open>y\<close>, like the one \<open>getStory\<close> passes.
\<close>

fun search :: "bool \<Rightarrow> regex \<Rightarrow> bool \<Rightarrow> jsstring \<Rightarrow> (nat \<times> nat) option" where
  "search ic re bol [] = map_option (\<lambda>n. (0, n)) (rmatch ic re bol [])"
| "search ic re bol (c # cs) =
     (case rmatch ic re bol (c # cs) of
        Some n \<Rightarrow> Some (0, n)
      | None \<Rightarrow> map_option (\<lambda>(i, n). (Suc i, n)) (search ic re False cs))"

definition test :: "bool \<times> regex \<Rightarrow> jsstring \<Rightarrow> bool" where
  "test re s = (search (fst re) (snd re) True s \<noteq> None)"

definition exec :: "bool \<Rightarrow> regex \<Rightarrow> jsstring \<Rightarrow> nat \<Rightarrow> (nat \<times> nat) option" where
  "exec ic re s lastIndex =
     (if length s < lastIndex then None
      else map_option (\<lambda>(i, n). (lastIndex + i, n))
             (search ic re (lastIndex = 0) (drop lastIndex s)))"

record heading =
  h_start :: nat
  h_end :: nat
  h_text :: jsstring

record picked =
  sectionHtml :: jsstring
  withoutSectionHtml :: jsstring

definition h16 :: atom where
  "h16 = Range (cu CHR ''1'') (cu CHR ''6'')"

definition headingRegex :: regex where
  "headingRegex =
     lit ''<h'' @ [One h16, Star notGt, gt, Lazy AnyCh] @ lit ''</h'' @ [One h16, gt]"

lemma headingRegex_nonempty: "rmatch True headingRegex bol s = Some n \<Longrightarrow> 0 < n"
  by (cases s) (auto simp: headingRegex_def lit_def split: if_splits)

lemma search_bounds:
  "search ic re bol s = Some (i, n) \<Longrightarrow>
     rmatch ic re (bol \<and> i = 0) (drop i s) = Some n \<and> i + n \<le> length s"
proof (induction s arbitrary: i bol)
  case Nil
  then show ?case by (auto dest: rmatch_le)
next
  case (Cons c cs)
  show ?case
  proof (cases "rmatch ic re bol (c # cs)")
    case None
    with Cons.prems obtain j where j: "search ic re False cs = Some (j, n)" "i = Suc j"
      by auto
    from Cons.IH [OF j(1)] j(2) show ?thesis by simp
  next
    case (Some m)
    with Cons.prems have "i = 0" "m = n" by auto
    with Some show ?thesis using rmatch_le [OF Some] by simp
  qed
qed

lemma exec_bounds:
  assumes "exec ic re s k = Some (i, n)"
  shows "k \<le> i" and "i + n \<le> length s"
    and "rmatch ic re (i = 0) (drop i s) = Some n"
proof -
  from assms obtain j where k: "k \<le> length s"
    and j: "search ic re (k = 0) (drop k s) = Some (j, n)" and i: "i = k + j"
    by (auto simp: exec_def split: if_splits)
  from search_bounds [OF j] have m: "rmatch ic re (k = 0 \<and> j = 0) (drop (k + j) s) = Some n"
    and b: "j + n \<le> length s - k"
    by (simp_all add: add.commute)
  from i show "k \<le> i" by simp
  from b k i show "i + n \<le> length s" by simp
  from m i show "rmatch ic re (i = 0) (drop i s) = Some n" by simp
qed

text \<open>
  The loop \<open>while ((m = headingRegex.exec(html)) !== null)\<close>, with \<open>lastIndex\<close> as its
  state.  A match of \<open>headingRegex\<close> is never empty, so \<open>lastIndex\<close> grows in every turn.
\<close>

function headingsFrom :: "jsstring \<Rightarrow> nat \<Rightarrow> heading list" where
  "headingsFrom html lastIndex =
     (case exec True headingRegex html lastIndex of
        None \<Rightarrow> []
      | Some (index, n) \<Rightarrow>
          (let raw = slice html index (index + n);
               plain = trim (htmlToPlain raw)
           in \<lparr>h_start = index, h_end = index + length raw, h_text = plain\<rparr>
              # headingsFrom html (index + n)))"
  by pat_completeness auto

termination headingsFrom
proof (relation "measure (\<lambda>(html, lastIndex). length html - lastIndex)")
  fix html :: jsstring and lastIndex x2 index n
  assume "exec True headingRegex html lastIndex = Some x2" and "(index, n) = x2"
  then have e: "exec True headingRegex html lastIndex = Some (index, n)" by simp
  from exec_bounds [OF e] headingRegex_nonempty [of "index = 0" "drop index html" n]
  show "((html, index + n), (html, lastIndex))
          \<in> measure (\<lambda>(html, lastIndex). length html - lastIndex)"
    by simp
qed simp

declare headingsFrom.simps [simp del]

text \<open>
  The loop that looks for the first heading whose text the expression matches.  The index
  it finds is a position of the list (\<open>findHeading_Some\<close> below), so \<open>headings[idx]\<close> is an
  element of it.
\<close>

fun findHeading :: "bool \<times> regex \<Rightarrow> heading list \<Rightarrow> nat option" where
  "findHeading contains [] = None"
| "findHeading contains (h # hs) =
     (if test contains (h_text h) then Some 0
      else map_option Suc (findHeading contains hs))"

definition extractSectionByHeading :: "jsstring \<Rightarrow> bool \<times> regex \<Rightarrow> picked option" where
  "extractSectionByHeading html contains =
     (if html = [] then None
      else
        let headings = headingsFrom html 0 in
        case findHeading contains headings of
          None \<Rightarrow> None
        | Some idx \<Rightarrow>
            (let acHead = headings ! idx;
                 sectionStart = h_end acHead;
                 sectionEnd = (if idx + 1 < length headings then h_start (headings ! (idx + 1))
                               else length html)
             in Some \<lparr>sectionHtml = slice html sectionStart sectionEnd,
                      withoutSectionHtml =
                        slice html 0 (h_start acHead) @ sliceFrom html sectionEnd\<rparr>))"

text \<open>The expression \<open>/acceptance\s*criteria/i\<close> that \<open>getStory\<close> passes.\<close>

definition acHeadingPattern :: "bool \<times> regex" where
  "acHeadingPattern = (True, lit ''acceptance'' @ [Star Space] @ lit ''criteria'')"

section \<open>JavaScript values\<close>

text \<open>
  The values that reach the extractor: the JSON values of the issue payload, and
  \<open>undefined\<close>, which a property read yields for a property that is absent.  An object is
  the list of its properties, each name once.  \<open>JNum n\<close> is the integer-valued number \<open>n\<close>.
\<close>

datatype jsval =
    JUndefined
  | JNull
  | JBool bool
  | JNum int
  | JStr jsstring
  | JArr "jsval list"
  | JObj "(string \<times> jsval) list"

text \<open>
  \<open>TypeError\<close> is the exception of the source.  \<open>Unmodelled\<close> marks the one input
  that the embedding leaves out (see \<open>arrayLike\<close>); the source does not fail there, and no
  statement below speaks about it.
\<close>

datatype error = TypeError | Unmodelled

fun truthy :: "jsval \<Rightarrow> bool" where
  "truthy JUndefined = False"
| "truthy JNull = False"
| "truthy (JBool b) = b"
| "truthy (JNum n) = (n \<noteq> 0)"
| "truthy (JStr s) = (s \<noteq> [])"
| "truthy (JArr xs) = True"
| "truthy (JObj kvs) = True"

text \<open>\<open>a || b\<close>.\<close>

definition orElse :: "jsval \<Rightarrow> jsval \<Rightarrow> jsval" where
  "orElse a b = (if truthy a then a else b)"

text \<open>
  \<open>v.k\<close> and \<open>v[k]\<close>.  An object has the properties of its list (the names of the members
  of \<open>Object.prototype\<close> are taken not to occur among the names that are read).  Of any
  other value the source reads only \<open>type\<close>, \<open>text\<close> and \<open>content\<close>, which no string,
  number, boolean or array has, and it reads them only after it has found the value to be
  neither \<open>null\<close> nor \<open>undefined\<close>.
\<close>

fun getProp :: "jsval \<Rightarrow> string \<Rightarrow> jsval" where
  "getProp (JObj kvs) k = (case map_of kvs k of None \<Rightarrow> JUndefined | Some v \<Rightarrow> v)"
| "getProp _ k = JUndefined"

fun joinWith :: "jsstring \<Rightarrow> jsstring list \<Rightarrow> jsstring" where
  "joinWith sep [] = []"
| "joinWith sep [x] = x"
| "joinWith sep (x # y # r) = x @ sep @ joinWith sep (y # r)"

fun digitsOf :: "nat \<Rightarrow> jsstring" where
  "digitsOf n = (if n < 10 then [48 + n] else digitsOf (n div 10) @ [48 + n mod 10])"

declare digitsOf.simps [simp del]

text \<open>
  \<open>String(v)\<close>, and the text that \<open>Array.prototype.join\<close> takes for an element: the empty
  string for \<open>null\<close> and \<open>undefined\<close>.  The digits of a number are those of an integer below
  \<open>10 ^ 21\<close> in absolute value; an object is taken to have no property \<open>toString\<close> or
  \<open>valueOf\<close> of its own.
\<close>

fun toString :: "jsval \<Rightarrow> jsstring" where
  "toString JUndefined = js ''undefined''"
| "toString JNull = js ''null''"
| "toString (JBool b) = (if b then js ''true'' else js ''false'')"
| "toString (JNum n) = (if n < 0 then cu CHR ''-'' # digitsOf (nat (- n)) else digitsOf (nat n))"
| "toString (JStr s) = s"
| "toString (JArr xs) =
     joinWith (js '','')
       (map (\<lambda>v. if v = JUndefined \<or> v = JNull then [] else toString v) xs)"
| "toString (JObj kvs) = js ''[object Object]''"

definition join :: "jsstring \<Rightarrow> jsval list \<Rightarrow> jsstring" where
  "join sep xs =
     joinWith sep (map (\<lambda>v. if v = JUndefined \<or> v = JNull then [] else toString v) xs)"

text \<open>The results of the calls that \<open>map\<close> makes, up to the first one that throws.\<close>

fun collect :: "(error + 'a) list \<Rightarrow> error + 'a list" where
  "collect [] = Inr []"
| "collect (Inl e # rs) = Inl e"
| "collect (Inr v # rs) = (case collect rs of Inl e \<Rightarrow> Inl e | Inr vs \<Rightarrow> Inr (v # vs))"

section \<open>Atlassian Document Format to plain text\<close>

lemma size_map_of: "map_of kvs k = Some v \<Longrightarrow> size v < Suc (size_list (size_prod (\<lambda>_. 0) size) kvs)"
  by (induction kvs) (auto split: if_splits)

lemma size_getProp: "getProp node k = JArr xs \<Longrightarrow> x \<in> set xs \<Longrightarrow> size x < size node"
proof (cases node)
  case (JObj kvs)
  assume "getProp node k = JArr xs" and x: "x \<in> set xs"
  with JObj have "map_of kvs k = Some (JArr xs)" by (auto split: option.splits)
  from size_map_of [OF this] have "size (JArr xs) < size node" by (simp add: JObj)
  moreover from x have "size x < size (JArr xs)" by (induction xs) auto
  ultimately show ?thesis by simp
qed auto

function extractTextFromNode :: "jsval \<Rightarrow> error + jsval" where
  "extractTextFromNode node =
     (if \<not> truthy node then Inr (JStr [])
      else if getProp node ''type'' = JStr (js ''text'')
        then Inr (orElse (getProp node ''text'') (JStr []))
      else if getProp node ''type'' = JStr (js ''paragraph'')
        then (case orElse (getProp node ''content'') (JArr []) of
                JArr xs \<Rightarrow>
                  (case collect (map extractTextFromNode xs) of
                     Inl e \<Rightarrow> Inl e
                   | Inr parts \<Rightarrow> Inr (JStr (join [] parts)))
              | _ \<Rightarrow> Inl TypeError)
      else if getProp node ''type'' = JStr (js ''bulletList'')
            \<or> getProp node ''type'' = JStr (js ''orderedList'')
        then (case orElse (getProp node ''content'') (JArr []) of
                JArr xs \<Rightarrow>
                  (case collect (map extractTextFromNode xs) of
                     Inl e \<Rightarrow> Inl e
                   | Inr parts \<Rightarrow> Inr (JStr (join (js ''\<newline>'') parts)))
              | _ \<Rightarrow> Inl TypeError)
      else if getProp node ''type'' = JStr (js ''listItem'')
        then (case orElse (getProp node ''content'') (JArr []) of
                JArr xs \<Rightarrow>
                  (case collect (map extractTextFromNode xs) of
                     Inl e \<Rightarrow> Inl e
                   | Inr parts \<Rightarrow>
                       (let text = join (js '' '') parts
                        in Inr (JStr (if trim text \<noteq> [] then js ''- '' @ trim text else []))))
              | _ \<Rightarrow> Inl TypeError)
      else (case getProp node ''content'' of
              JArr xs \<Rightarrow>
                (case collect (map extractTextFromNode xs) of
                   Inl e \<Rightarrow> Inl e
                 | Inr parts \<Rightarrow> Inr (JStr (join (js ''\<newline>'') parts)))
            | _ \<Rightarrow> Inr (JStr [])))"
  by pat_completeness auto

termination extractTextFromNode
  by (relation "measure size") (auto simp: orElse_def split: if_splits dest: size_getProp)

declare extractTextFromNode.simps [simp del]


text \<open>
  The values \<open>content[0]\<close>, ..., \<open>content[content.length - 1]\<close> that the loop of \<open>adfToPlain\<close>
  reads.  A string has its characters, a number or boolean has no \<open>length\<close>, and an object
  is read through its properties \<open>length\<close>, \<open>0\<close>, \<open>1\<close>, ...; the comparison
  \<open>i < content.length\<close> is left out where \<open>length\<close> is a string, an array or an object, which
  the source would first convert to a number.
\<close>

fun arrayLike :: "jsval \<Rightarrow> error + jsval list" where
  "arrayLike (JArr xs) = Inr xs"
| "arrayLike (JStr s) = Inr (map (\<lambda>c. JStr [c]) s)"
| "arrayLike (JObj kvs) =
     (case getProp (JObj kvs) ''length'' of
        JUndefined \<Rightarrow> Inr []
      | JNull \<Rightarrow> Inr []
      | JBool b \<Rightarrow> Inr (if b then [getProp (JObj kvs) ''0''] else [])
      | JNum n \<Rightarrow> Inr (map (\<lambda>i. getProp (JObj kvs) (map char_of (digitsOf i))) [0..<nat n])
      | _ \<Rightarrow> Inl Unmodelled)"
| "arrayLike _ = Inr []"

text \<open>\<open>typeof v === 'object'\<close>.\<close>

fun isObject :: "jsval \<Rightarrow> bool" where
  "isObject JNull = True"
| "isObject (JArr xs) = True"
| "isObject (JObj kvs) = True"
| "isObject _ = False"

text \<open>The expression \<open>/^acceptance\s*criteria\s*:?\s*$/i\<close>.\<close>

definition acBoundary :: "bool \<times> regex" where
  "acBoundary =
     (True, [Bol] @ lit ''acceptance'' @ [Star Space] @ lit ''criteria''
            @ [Star Space, Opt (Ch (cu CHR '':'')), Star Space, Eol])"

record splitResult =
  description :: jsstring
  acceptanceCriteria :: jsstring

record loopState =
  beforeAC :: "jsstring list"
  acContent :: "jsstring list"
  foundACHeading :: bool

text \<open>
  The loop of \<open>adfToPlain\<close> over the nodes that remain.  \<open>trim\<close> is a method of strings
  only: on any other result of \<open>extractTextFromNode\<close> the call throws.
\<close>

fun adfLoop :: "jsval list \<Rightarrow> loopState \<Rightarrow> error + loopState" where
  "adfLoop [] st = Inr st"
| "adfLoop (node # rest) st =
     (case extractTextFromNode node of
        Inl e \<Rightarrow> Inl e
      | Inr (JStr s) \<Rightarrow>
          (let text = trim s in
           if \<not> foundACHeading st \<and> test acBoundary text
             then adfLoop rest (st\<lparr>foundACHeading := True\<rparr>)
           else if foundACHeading st
             then adfLoop rest (if text \<noteq> [] then st\<lparr>acContent := acContent st @ [text]\<rparr> else st)
           else adfLoop rest (if text \<noteq> [] then st\<lparr>beforeAC := beforeAC st @ [text]\<rparr> else st))
      | Inr _ \<Rightarrow> Inl TypeError)"

definition adfToPlain :: "jsval \<Rightarrow> error + splitResult" where
  "adfToPlain adfJson =
     (if \<not> truthy adfJson \<or> \<not> isObject adfJson
        then Inr \<lparr>description = [], acceptanceCriteria = []\<rparr>
      else
        case arrayLike (orElse (getProp adfJson ''content'') (JArr [])) of
          Inl e \<Rightarrow> Inl e
        | Inr content \<Rightarrow>
            (case adfLoop content \<lparr>beforeAC = [], acContent = [], foundACHeading = False\<rparr> of
               Inl e \<Rightarrow> Inl e
             | Inr st \<Rightarrow>
                 Inr \<lparr>description = trim (joinWith (js ''\<newline>'') (beforeAC st)),
                      acceptanceCriteria = trim (joinWith (js ''\<newline>'') (acContent st))\<rparr>))"

text \<open>
  The documented shape of a node: the \<open>text\<close> of a text node is a string or is missing;
  the \<open>content\<close> of a paragraph, a list or a list item is a sequence of nodes of the
  documented shape or is missing; the \<open>content\<close> of a node of any other type, if it is a
  sequence, is one of nodes of the documented shape.  (Missing includes \<open>null\<close> and every
  other value that counts as false.)
\<close>

function shaped :: "jsval \<Rightarrow> bool" where
  "shaped node =
     (if \<not> truthy node then True
      else if getProp node ''type'' = JStr (js ''text'')
        then (case orElse (getProp node ''text'') (JStr []) of JStr s \<Rightarrow> True | _ \<Rightarrow> False)
      else if getProp node ''type'' = JStr (js ''paragraph'')
            \<or> getProp node ''type'' = JStr (js ''bulletList'')
            \<or> getProp node ''type'' = JStr (js ''orderedList'')
            \<or> getProp node ''type'' = JStr (js ''listItem'')
        then (case orElse (getProp node ''content'') (JArr []) of
                JArr xs \<Rightarrow> list_all shaped xs
              | _ \<Rightarrow> False)
      else (case getProp node ''content'' of JArr xs \<Rightarrow> list_all shaped xs | _ \<Rightarrow> True))"
  by pat_completeness auto

termination shaped
  by (relation "measure size") (auto simp: orElse_def split: if_splits dest: size_getProp)

declare shaped.simps [simp del]

lemmas adf_eval =
  extractTextFromNode.simps shaped.simps adfToPlain_def acBoundary_def test_def orElse_def
  join_def js_def lit_def trim_def isWhiteSpace_def canon_def cu_def Let_def

definition para :: "string \<Rightarrow> jsval" where
  "para s = JObj [(''type'', JStr (js ''paragraph'')),
                  (''content'', JArr [JObj [(''type'', JStr (js ''text'')), (''text'', JStr (js s))]])]"

definition bullets :: "string \<Rightarrow> jsval" where
  "bullets s = JObj [(''type'', JStr (js ''bulletList'')),
                     (''content'', JArr [JObj [(''type'', JStr (js ''listItem'')),
                                              (''content'', JArr [para s])]])]"

section \<open>The story that getStory returns\<close>

text \<open>
  \<open>getStoryFrom\<close> is \<open>getStory\<close> from the point where the issue has been fetched.  The
  response \<open>data\<close> is an object whose properties \<open>fields\<close>, \<open>renderedFields\<close> and \<open>names\<close> are
  objects where they are present (the fields of the record \<open>issue\<close>; \<open>None\<close> stands for a
  property that is absent or \<open>null\<close>);
  the properties of an object are listed in the order of \<open>Object.keys\<close>, and none of them
  has the name of a member of \<open>Object.prototype\<close>.  The library functions \<open>JSON.stringify\<close>,
  \<open>JSON.parse\<close> (\<open>None\<close> when it throws) and \<open>String.prototype.toLowerCase\<close> are parameters.
\<close>

record issue =
  issueFields :: "(string \<times> jsval) list option"
  issueRenderedFields :: "(string \<times> jsval) list option"
  issueNames :: "(string \<times> jsval) list option"

record host =
  stringify :: "jsval \<Rightarrow> jsstring"
  parse :: "jsstring \<Rightarrow> jsval option"
  toLowerCase :: "jsstring \<Rightarrow> jsstring"

record story =
  story_key :: jsstring
  story_title :: jsval
  story_description :: jsval
  story_acceptanceCriteria :: jsval

record plain =
  descriptionPlain :: jsval
  acPlain :: jsval

text \<open>\<open>obj?.k\<close> for one of the three objects of the response.\<close>

definition optProp :: "(string \<times> jsval) list option \<Rightarrow> string \<Rightarrow> jsval" where
  "optProp obj k = (case obj of None \<Rightarrow> JUndefined | Some kvs \<Rightarrow> getProp (JObj kvs) k)"

fun isString :: "jsval \<Rightarrow> bool" where
  "isString (JStr s) = True"
| "isString _ = False"

fun isArray :: "jsval \<Rightarrow> bool" where
  "isArray (JArr xs) = True"
| "isArray _ = False"

text \<open>
  \<open>htmlToPlain\<close> called with any value: a value that counts as false gives the empty
  string, and a value that is not a string has no method \<open>replace\<close>.
\<close>

fun htmlToPlainOf :: "jsval \<Rightarrow> error + jsval" where
  "htmlToPlainOf (JStr s) = Inr (JStr (htmlToPlain s))"
| "htmlToPlainOf v = (if truthy v then Inl TypeError else Inr (JStr []))"

text \<open>\<open>typeof v === 'string' ? htmlToPlain(v) : htmlToPlain(JSON.stringify(v))\<close>.\<close>

definition fieldToPlain :: "host \<Rightarrow> jsval \<Rightarrow> jsval" where
  "fieldToPlain h v =
     (case v of JStr s \<Rightarrow> JStr (htmlToPlain s) | _ \<Rightarrow> JStr (htmlToPlain (stringify h v)))"

fun includesStr :: "jsstring \<Rightarrow> jsstring \<Rightarrow> bool" where
  "includesStr [] w = (w = [])"
| "includesStr (c # cs) w = (take (length w) (c # cs) = w \<or> includesStr cs w)"

text \<open>Step 1: the field that \<open>JIRA_AC_FIELD_KEY\<close> names.\<close>

definition configuredField :: "host \<Rightarrow> string option \<Rightarrow> issue \<Rightarrow> plain \<Rightarrow> plain" where
  "configuredField h configuredKey data p =
     (case configuredKey of
        None \<Rightarrow> p
      | Some k \<Rightarrow>
          (if k \<noteq> [] \<and> (case issueFields data of None \<Rightarrow> False | Some kvs \<Rightarrow> k \<in> fst ` set kvs)
           then p\<lparr>acPlain := fieldToPlain h (optProp (issueFields data) k)\<rparr>
           else p))"

text \<open>Step 2: the loop over the field names, left at the first field that is found.\<close>

fun discover :: "host \<Rightarrow> issue \<Rightarrow> (string \<times> jsval) list \<Rightarrow> plain \<Rightarrow> plain" where
  "discover h data [] p = p"
| "discover h data ((fieldId, name) # rest) p =
     (let label = toLowerCase h (toString (orElse name (JStr [])))
      in if includesStr label (js ''acceptance'') \<and> includesStr label (js ''criteria'')
         then (let v = optProp (issueFields data) fieldId
               in if v \<noteq> JNull \<and> v \<noteq> JUndefined then p\<lparr>acPlain := fieldToPlain h v\<rparr>
                  else discover h data rest p)
         else discover h data rest p)"

definition discoveredField :: "host \<Rightarrow> issue \<Rightarrow> plain \<Rightarrow> plain" where
  "discoveredField h data p =
     (if \<not> truthy (acPlain p)
      then discover h data (case issueNames data of None \<Rightarrow> [] | Some kvs \<Rightarrow> kvs) p
      else p)"

text \<open>
  Step 3: the description as a structured document.  Inside \<open>try\<close> every exception, also
  the one of reading a property of \<open>null\<close>, leads to the \<open>catch\<close> branch.
\<close>

definition isDoc :: "jsval \<Rightarrow> bool" where
  "isDoc v = (getProp v ''type'' = JStr (js ''doc'') \<and> isArray (getProp v ''content''))"

definition fromDocument :: "host \<Rightarrow> issue \<Rightarrow> plain \<Rightarrow> error + plain" where
  "fromDocument h data p =
     (let desc = optProp (issueFields data) ''description''
      in if \<not> truthy (acPlain p) \<and> truthy desc
         then (if isObject desc \<and> isDoc desc
               then (case adfToPlain desc of
                       Inl e \<Rightarrow> Inl e
                     | Inr r \<Rightarrow> Inr (p\<lparr>descriptionPlain := JStr (description r),
                                        acPlain := JStr (acceptanceCriteria r)\<rparr>))
               else (case desc of
                       JStr s \<Rightarrow>
                         (case parse h s of
                            None \<Rightarrow> Inr (p\<lparr>descriptionPlain := desc\<rparr>)
                          | Some parsed \<Rightarrow>
                              (if parsed = JNull \<or> parsed = JUndefined
                               then Inr (p\<lparr>descriptionPlain := desc\<rparr>)
                               else if isDoc parsed
                               then (case adfToPlain parsed of
                                       Inl e \<Rightarrow> Inr (p\<lparr>descriptionPlain := desc\<rparr>)
                                     | Inr r \<Rightarrow>
                                         Inr (p\<lparr>descriptionPlain := JStr (description r),
                                                acPlain := JStr (acceptanceCriteria r)\<rparr>))
                               else Inr (p\<lparr>descriptionPlain := desc\<rparr>)))
                     | _ \<Rightarrow> Inr p))
         else Inr p)"

text \<open>
  Step 4: the rendered description.  With a rendered description that is not a string,
  \<open>exec\<close> searches its string conversion; if a heading matches, the code throws (the value
  has no method \<open>slice\<close>, or the slice of an array is passed to \<open>htmlToPlain\<close>).
\<close>

definition fromRendered :: "issue \<Rightarrow> plain \<Rightarrow> error + plain" where
  "fromRendered data p =
     (let renderedDesc = optProp (issueRenderedFields data) ''description''
      in if \<not> truthy (acPlain p) \<and> truthy renderedDesc
         then (case renderedDesc of
                 JStr s \<Rightarrow>
                   (case extractSectionByHeading s acHeadingPattern of
                      Some picked \<Rightarrow>
                        (if sectionHtml picked \<noteq> []
                         then Inr (p\<lparr>acPlain := JStr (htmlToPlain (sectionHtml picked)),
                                    descriptionPlain :=
                                      JStr (htmlToPlain (withoutSectionHtml picked))\<rparr>)
                         else if \<not> truthy (descriptionPlain p)
                         then Inr (p\<lparr>descriptionPlain := JStr (htmlToPlain s)\<rparr>)
                         else Inr p)
                    | None \<Rightarrow>
                        (if \<not> truthy (descriptionPlain p)
                         then Inr (p\<lparr>descriptionPlain := JStr (htmlToPlain s)\<rparr>)
                         else Inr p))
               | _ \<Rightarrow>
                   (if findHeading acHeadingPattern (headingsFrom (toString renderedDesc) 0) \<noteq> None
                    then Inl TypeError
                    else if \<not> truthy (descriptionPlain p) then Inl TypeError
                    else Inr p))
         else Inr p)"

text \<open>Step 5: the description, if there still is none.\<close>

definition finalize :: "host \<Rightarrow> issue \<Rightarrow> plain \<Rightarrow> error + plain" where
  "finalize h data p =
     (if \<not> truthy (descriptionPlain p)
      then (if truthy (optProp (issueRenderedFields data) ''description'')
            then (case htmlToPlainOf (optProp (issueRenderedFields data) ''description'') of
                    Inl e \<Rightarrow> Inl e
                  | Inr d \<Rightarrow> Inr (p\<lparr>descriptionPlain := d\<rparr>))
            else (case optProp (issueFields data) ''description'' of
                    JStr s \<Rightarrow> Inr (p\<lparr>descriptionPlain := JStr (trim s)\<rparr>)
                  | v \<Rightarrow>
                      (if truthy v
                       then Inr (p\<lparr>descriptionPlain := JStr (htmlToPlain (stringify h v))\<rparr>)
                       else Inr p)))
      else Inr p)"

definition getStoryFrom :: "host \<Rightarrow> string option \<Rightarrow> jsstring \<Rightarrow> issue \<Rightarrow> error + story" where
  "getStoryFrom h configuredKey key data =
     (let summary = optProp (issueFields data) ''summary'';
          title = (if summary = JNull \<or> summary = JUndefined then JStr key else summary);
          p = \<lparr>descriptionPlain = JUndefined, acPlain = JUndefined\<rparr>;
          p = configuredField h configuredKey data p;
          p = discoveredField h data p
      in case fromDocument h data p of
           Inl e \<Rightarrow> Inl e
         | Inr p \<Rightarrow>
             (case fromRendered data p of
                Inl e \<Rightarrow> Inl e
              | Inr p \<Rightarrow>
                  (case finalize h data p of
                     Inl e \<Rightarrow> Inl e
                   | Inr p \<Rightarrow>
                       Inr \<lparr>story_key = key, story_title = title,
                            story_description = orElse (descriptionPlain p) (JStr []),
                            story_acceptanceCriteria = orElse (acPlain p) (JStr [])\<rparr>)))"

section \<open>Properties of the heading scan\<close>

lemma search_leftmost:
  "search ic re bol s = Some (i, n) \<Longrightarrow> j < i \<Longrightarrow> rmatch ic re (bol \<and> j = 0) (drop j s) = None"
proof (induction s arbitrary: i j bol)
  case Nil
  then show ?case by auto
next
  case (Cons c cs)
  show ?case
  proof (cases "rmatch ic re bol (c # cs)")
    case None
    with Cons.prems obtain i' where i': "search ic re False cs = Some (i', n)" "i = Suc i'"
      by auto
    show ?thesis
    proof (cases j)
      case 0
      with None show ?thesis by simp
    next
      case (Suc j')
      with Cons.prems i' have "j' < i'" by simp
      from Cons.IH [OF i'(1) this] Suc show ?thesis by simp
    qed
  next
    case (Some m)
    with Cons.prems show ?thesis by auto
  qed
qed

lemma search_None:
  "search ic re bol s = None \<Longrightarrow> j \<le> length s \<Longrightarrow> rmatch ic re (bol \<and> j = 0) (drop j s) = None"
proof (induction s arbitrary: j bol)
  case Nil
  then show ?case by auto
next
  case (Cons c cs)
  from Cons.prems have n: "rmatch ic re bol (c # cs) = None" and s: "search ic re False cs = None"
    by (auto split: option.splits)
  show ?case
  proof (cases j)
    case 0
    with n show ?thesis by simp
  next
    case (Suc j')
    with Cons.prems have "j' \<le> length cs" by simp
    from Cons.IH [OF s this] Suc show ?thesis by simp
  qed
qed

lemma headingsFrom_Nil:
  "headingsFrom html k = [] \<longleftrightarrow> exec True headingRegex html k = None"
  by (subst headingsFrom.simps) (auto split: option.splits simp: Let_def)

lemma headingsFrom_Cons:
  assumes "headingsFrom html k = h # rest"
  shows "exec True headingRegex html k = Some (h_start h, h_end h - h_start h)"
    and "rest = headingsFrom html (h_end h)"
    and "k \<le> h_start h" and "h_start h < h_end h" and "h_end h \<le> length html"
    and "h_text h = trim (htmlToPlain (slice html (h_start h) (h_end h)))"
proof -
  from assms obtain i n where e: "exec True headingRegex html k = Some (i, n)"
    by (subst (asm) headingsFrom.simps) (auto split: option.splits)
  note b = exec_bounds [OF e]
  from b(2) have len: "length (slice html i (i + n)) = n"
    by (simp add: slice_def)
  from assms e len have h: "h = \<lparr>h_start = i, h_end = i + n, h_text = trim (htmlToPlain (slice html i (i + n)))\<rparr>"
    and r: "rest = headingsFrom html (i + n)"
    by (subst (asm) headingsFrom.simps, simp add: Let_def)+
  from headingRegex_nonempty [OF b(3)] have n: "0 < n" .
  from h e show "exec True headingRegex html k = Some (h_start h, h_end h - h_start h)" by simp
  from h r show "rest = headingsFrom html (h_end h)" by simp
  from h b(1) show "k \<le> h_start h" by simp
  from h n show "h_start h < h_end h" by simp
  from h b(2) show "h_end h \<le> length html" by simp
  from h show "h_text h = trim (htmlToPlain (slice html (h_start h) (h_end h)))" by simp
qed

lemma headingsFrom_drop:
  "i < length (headingsFrom html k) \<Longrightarrow>
     drop (Suc i) (headingsFrom html k) = headingsFrom html (h_end (headingsFrom html k ! i))"
proof (induction i arbitrary: k)
  case 0
  then obtain h rest where c: "headingsFrom html k = h # rest" by (cases "headingsFrom html k") auto
  from headingsFrom_Cons(2) [OF c] c show ?case by simp
next
  case (Suc i)
  then obtain h rest where c: "headingsFrom html k = h # rest" by (cases "headingsFrom html k") auto
  note r = headingsFrom_Cons(2) [OF c]
  from Suc.prems c r have "i < length (headingsFrom html (h_end h))" by simp
  from Suc.IH [OF this] c r show ?case by simp
qed

lemma headingsFrom_nth:
  assumes "i < length (headingsFrom html k)"
  shows "\<exists>k'. headingsFrom html k' = headingsFrom html k ! i # drop (Suc i) (headingsFrom html k)"
proof (cases i)
  case 0
  with assms show ?thesis by (cases "headingsFrom html k") auto
next
  case (Suc j)
  with assms have j: "j < length (headingsFrom html k)" by simp
  from headingsFrom_drop [OF j] have "headingsFrom html (h_end (headingsFrom html k ! j)) = drop (Suc j) (headingsFrom html k)" by simp
  also from assms Suc have "\<dots> = headingsFrom html k ! i # drop (Suc i) (headingsFrom html k)"
    by (simp add: Cons_nth_drop_Suc)
  finally show ?thesis by blast
qed

lemma findHeading_Some:
  "findHeading contains hs = Some i \<Longrightarrow>
     i < length hs \<and> test contains (h_text (hs ! i)) \<and> (\<forall>j<i. \<not> test contains (h_text (hs ! j)))"
proof (induction hs arbitrary: i)
  case Nil
  then show ?case by simp
next
  case (Cons h hs)
  show ?case
  proof (cases "test contains (h_text h)")
    case True
    with Cons.prems show ?thesis by simp
  next
    case False
    with Cons.prems obtain i' where i': "findHeading contains hs = Some i'" "i = Suc i'" by auto
    from Cons.IH [OF i'(1)] i'(2) False show ?thesis
      by (auto simp: less_Suc_eq_0_disj)
  qed
qed

lemma exec_leftmost:
  assumes "exec ic re s k = Some (i, n)" and "k \<le> p" and "p < i"
  shows "rmatch ic re (p = 0) (drop p s) = None"
proof -
  from assms(1) obtain j where j: "search ic re (k = 0) (drop k s) = Some (j, n)" and i: "i = k + j"
    by (auto simp: exec_def split: if_splits)
  from assms(2,3) i have "p - k < j" by simp
  from search_leftmost [OF j this]
  have "rmatch ic re (k = 0 \<and> p - k = 0) (drop (p - k) (drop k s)) = None" .
  moreover from assms(2) have "(k = 0 \<and> p - k = 0) = (p = 0)" by auto
  moreover from assms(2) have "drop (p - k) (drop k s) = drop p s" by simp
  ultimately show ?thesis by simp
qed

lemma exec_None:
  assumes "exec ic re s k = None" and "k \<le> p" and "p \<le> length s"
  shows "rmatch ic re (p = 0) (drop p s) = None"
proof -
  from assms have "search ic re (k = 0) (drop k s) = None"
    by (auto simp: exec_def split: if_splits)
  moreover from assms(2,3) have "p - k \<le> length (drop k s)" by simp
  ultimately have "rmatch ic re (k = 0 \<and> p - k = 0) (drop (p - k) (drop k s)) = None"
    by (rule search_None)
  moreover from assms(2) have "(k = 0 \<and> p - k = 0) = (p = 0)" by auto
  moreover from assms(2) have "drop (p - k) (drop k s) = drop p s" by simp
  ultimately show ?thesis by simp
qed


lemma heading_positions:
  assumes i: "findHeading contains (headingsFrom html 0) = Some i"
  defines "hs \<equiv> headingsFrom html 0"
  defines "a \<equiv> h_start (hs ! i)" and "b \<equiv> h_end (hs ! i)"
  defines "e \<equiv> (if Suc i < length hs then h_start (hs ! Suc i) else length html)"
  shows "a < b" and "b \<le> e" and "e \<le> length html"
    and "rmatch True headingRegex (a = 0) (drop a html) = Some (b - a)"
    and "h_text (hs ! i) = trim (htmlToPlain (slice html a b))"
    and "\<forall>p. b \<le> p \<and> p < e \<longrightarrow> rmatch True headingRegex (p = 0) (drop p html) = None"
    and "e = length html \<or> (\<exists>n. rmatch True headingRegex (e = 0) (drop e html) = Some n)"
proof -
  from findHeading_Some [OF i] have il: "i < length hs" by (simp add: hs_def)
  from headingsFrom_nth [of i html 0] il obtain k' where
    k': "headingsFrom html k' = hs ! i # drop (Suc i) hs"
    by (auto simp: hs_def)
  note c = headingsFrom_Cons [OF k']
  from headingsFrom_drop [of i html 0] il
  have d: "drop (Suc i) hs = headingsFrom html b" by (simp add: hs_def b_def)
  from c(4) show ab: "a < b" by (simp add: a_def b_def)
  from c(5) have bl: "b \<le> length html" by (simp add: b_def)
  have nxt: "b \<le> e \<and> e \<le> length html
     \<and> (\<forall>p. b \<le> p \<and> p < e \<longrightarrow> rmatch True headingRegex (p = 0) (drop p html) = None)
     \<and> (e = length html \<or> (\<exists>n. rmatch True headingRegex (e = 0) (drop e html) = Some n))"
  proof (cases "Suc i < length hs")
    case True
    then have "headingsFrom html b = hs ! Suc i # drop (Suc (Suc i)) hs"
      using d by (simp add: Cons_nth_drop_Suc)
    note n = headingsFrom_Cons [OF this]
    from True have e: "e = h_start (hs ! Suc i)" by (simp add: e_def)
    from n(3) e have "b \<le> e" by simp
    moreover from n(4,5) e have "e \<le> length html" by simp
    moreover from exec_leftmost [OF n(1)] e
    have "\<forall>p. b \<le> p \<and> p < e \<longrightarrow> rmatch True headingRegex (p = 0) (drop p html) = None" by simp
    moreover from exec_bounds(3) [OF n(1)] e
    have "\<exists>n. rmatch True headingRegex (e = 0) (drop e html) = Some n" by auto
    ultimately show ?thesis by blast
  next
    case False
    with il have "drop (Suc i) hs = []" by simp
    with d have "headingsFrom html b = []" by simp
    then have "exec True headingRegex html b = None" by (simp only: headingsFrom_Nil)
    from exec_None [OF this] False bl show ?thesis by (simp add: e_def)
  qed
  from nxt show "b \<le> e" and "e \<le> length html"
    and "\<forall>p. b \<le> p \<and> p < e \<longrightarrow> rmatch True headingRegex (p = 0) (drop p html) = None"
    and "e = length html \<or> (\<exists>n. rmatch True headingRegex (e = 0) (drop e html) = Some n)"
    by blast+
  from c(1) show "rmatch True headingRegex (a = 0) (drop a html) = Some (b - a)"
    using exec_bounds(3) by (simp add: a_def b_def)
  from c(6) show "h_text (hs ! i) = trim (htmlToPlain (slice html a b))"
    by (simp add: a_def b_def)
qed

lemma extract_findHeading:
  "extractSectionByHeading html contains =
     (case findHeading contains (headingsFrom html 0) of
        None \<Rightarrow> None
      | Some i \<Rightarrow>
          Some \<lparr>sectionHtml =
                  slice html (h_end (headingsFrom html 0 ! i))
                    (if Suc i < length (headingsFrom html 0)
                     then h_start (headingsFrom html 0 ! Suc i) else length html),
                withoutSectionHtml =
                  take (h_start (headingsFrom html 0 ! i)) html
                  @ drop (if Suc i < length (headingsFrom html 0)
                          then h_start (headingsFrom html 0 ! Suc i) else length html) html\<rparr>)"
proof (cases "html = []")
  case True
  have "rmatch True headingRegex True [] = None"
    by (simp add: headingRegex_def lit_def)
  then have "headingsFrom [] 0 = []"
    by (simp add: headingsFrom_Nil exec_def)
  with True show ?thesis by (simp add: extractSectionByHeading_def)
next
  case False
  then show ?thesis
    by (simp add: extractSectionByHeading_def Let_def slice_def sliceFrom_def split: option.splits)
qed

section \<open>Evaluation of the conversion on given inputs\<close>

lemmas html_eval =
  htmlToPlain_def decodeHtmlEntities_def replaceAll_def numericRef_def fromCharCode_def
  toNumber_def parseInt_def js_def lit_def cu_def notGt_def gt_def trim_def canon_def
  isWhiteSpace_def Let_def

text \<open>
  Claim C3, as stated: \<open>htmlToPlain\<close> maps \<open><p>Hello</p><p>World</p>\<close> to the two words
  separated by a single newline.  The code does not: the replacement of a closing
  paragraph tag followed by an opening one is the two-character string of two newlines.
\<close>

theorem C3_single_newline_refuted:
  "htmlToPlain (js ''<p>Hello</p><p>World</p>'') \<noteq> js ''Hello\<newline>World''"
  by (simp add: html_eval)

text \<open>
  Claim C3, amended: \<open>htmlToPlain\<close> maps \<open><p>Hello</p><p>World</p>\<close> to the two words
  separated by two newlines, that is by one empty line.
\<close>

theorem C3_paragraphs_blank_line:
  "htmlToPlain (js ''<p>Hello</p><p>World</p>'') = js ''Hello\<newline>\<newline>World''"
  by (simp add: html_eval)

text \<open>
  Claim C4, as stated: \<open>htmlToPlain\<close> maps \<open><ul><li>A</li><li>B</li></ul>\<close> to the two
  bullet lines separated by a single newline.  The code does not: the first replacement
  puts a newline between the two items and the second one puts another newline before
  each bullet.
\<close>

theorem C4_single_newline_refuted:
  "htmlToPlain (js ''<ul><li>A</li><li>B</li></ul>'') \<noteq> js ''- A\<newline>- B''"
  by (simp add: html_eval)

text \<open>
  Claim C4, amended: \<open>htmlToPlain\<close> maps \<open><ul><li>A</li><li>B</li></ul>\<close> to the two
  bullet lines separated by two newlines.
\<close>

theorem C4_bullets_blank_line:
  "htmlToPlain (js ''<ul><li>A</li><li>B</li></ul>'') = js ''- A\<newline>\<newline>- B''"
  by (simp add: html_eval)

text \<open>
  Claim C8 says that a doubly encoded entity is decoded one level only.  The replacements
  of \<open>decodeHtmlEntities\<close> run one after the other with \<open>&amp;\<close> in second place, so an
  entity that the replacement of \<open>&amp;\<close> produces is decoded again whenever its own
  replacement comes later: \<open>&amp;lt;\<close> becomes \<open><\<close>, not \<open>&lt;\<close>.
\<close>

theorem C8_amp_lt_decoded_twice:
  "htmlToPlain (js ''&amp;lt;'') = js ''<'' \<and> htmlToPlain (js ''&amp;lt;'') \<noteq> js ''&lt;''"
  by (simp add: html_eval)

text \<open>
  The instance that claim C8 names holds, because \<open>&nbsp;\<close> is replaced before \<open>&amp;\<close>.
\<close>

lemma amp_nbsp_decoded_once:
  "htmlToPlain (js ''&amp;nbsp;'') = js ''&nbsp;''"
  by (simp add: html_eval)

section \<open>Applying the conversion to its own output\<close>


lemma replaceFrom_set:
  "set (replaceFrom ic re (\<lambda>m. rep) bol s) \<subseteq> set s \<union> set rep"
proof (induction ic re "\<lambda>m::jsstring. rep" bol s rule: replaceFrom.induct)
  case (1 ic re bol)
  then show ?case by (auto split: option.splits)
next
  case (2 ic re bol c cs)
  show ?case
  proof (cases "rmatch ic re bol (c # cs)")
    case None
    with 2(1) show ?thesis by auto
  next
    case (Some n)
    show ?thesis
    proof (cases "n = 0")
      case True
      with Some 2(2) show ?thesis by auto
    next
      case False
      with Some 2(3) have "set (replaceFrom ic re (\<lambda>m. rep) False (drop n (c # cs)))
          \<subseteq> set (drop n (c # cs)) \<union> set rep" by simp
      moreover have "set (drop n (c # cs)) \<subseteq> set (c # cs)" by (rule set_drop_subset)
      ultimately show ?thesis using Some False by auto
    qed
  qed
qed

lemma remove_cr: "replaceFrom False [One (Ch 13)] (\<lambda>m. []) bol s = filter (\<lambda>c. c \<noteq> 13) s"
  by (induction s arbitrary: bol) auto

definition isSp :: "nat \<Rightarrow> bool" where
  "isSp c = (c = 32 \<or> c = 9)"

lemma accepts_sp: "accepts False (OneOf [32, 9]) c = isSp c"
  by (auto simp: isSp_def)

lemma isSp_not_nl: "isSp c \<Longrightarrow> c \<noteq> 10"
  by (auto simp: isSp_def)

lemma isSp_10 [simp]: "\<not> isSp 10"
  by (simp add: isSp_def)

definition spnlAt :: "jsstring \<Rightarrow> bool" where
  "spnlAt s = (case dropWhile isSp s of [] \<Rightarrow> False | c # cs \<Rightarrow> c = 10)"

lemma spnlAt_simps [simp]:
  "spnlAt [] = False"
  "spnlAt (c # cs) = (if isSp c then spnlAt cs else c = 10)"
  by (simp_all add: spnlAt_def)

lemma star_sp_nl:
  "rmatch False [Star (OneOf [32, 9]), One (Ch 10)] bol s
     = (if spnlAt s then Some (Suc (length (takeWhile isSp s))) else None)"
proof (induction s arbitrary: bol)
  case Nil
  show ?case by simp
next
  case (Cons c cs)
  show ?case
  proof (cases "isSp c")
    case True
    with Cons isSp_not_nl [OF True] show ?thesis
      by (simp add: accepts_sp del: accepts.simps(4))
  next
    case False
    then show ?thesis by (simp add: accepts_sp del: accepts.simps(4))
  qed
qed

lemma plus_sp_nl:
  "rmatch False [Plus (OneOf [32, 9]), One (Ch 10)] bol s
     = (case s of [] \<Rightarrow> None
        | c # cs \<Rightarrow> if isSp c \<and> spnlAt cs then Some (Suc (Suc (length (takeWhile isSp cs)))) else None)"
  by (cases s) (simp_all add: star_sp_nl accepts_sp del: accepts.simps(4))

fun noSpNl :: "jsstring \<Rightarrow> bool" where
  "noSpNl [] = True"
| "noSpNl (c # cs) = (\<not> (isSp c \<and> spnlAt cs) \<and> noSpNl cs)"

definition R2 :: "bool \<Rightarrow> jsstring \<Rightarrow> jsstring" where
  "R2 bol s = replaceFrom False [Plus (OneOf [32, 9]), One (Ch 10)] (\<lambda>m. [10]) bol s"

lemma R2_simps:
  "R2 bol [] = []"
  "R2 bol (c # cs) = (if isSp c \<and> spnlAt cs then 10 # R2 False (drop (Suc (length (takeWhile isSp cs))) cs)
                      else c # R2 False cs)"
  by (simp_all add: R2_def plus_sp_nl del: rmatch.simps)

lemma R2_head: "spnlAt (R2 bol s) \<Longrightarrow> spnlAt s"
proof (induction s arbitrary: bol)
  case Nil
  then show ?case by (simp add: R2_simps)
next
  case (Cons c cs)
  show ?case
  proof (cases "isSp c \<and> spnlAt cs")
    case True
    then show ?thesis by simp
  next
    case False
    with Cons.prems have h: "spnlAt (c # R2 False cs)" by (simp add: R2_simps)
    show ?thesis
    proof (cases "isSp c")
      case True
      with h have "spnlAt (R2 False cs)" by simp
      then have "spnlAt cs" by (rule Cons.IH)
      with True False show ?thesis by simp
    next
      case F: False
      with h show ?thesis by simp
    qed
  qed
qed

lemma R2_noSpNl: "noSpNl (R2 bol s)"
proof (induction s arbitrary: bol rule: length_induct)
  case (1 s)
  show ?case
  proof (cases s)
    case Nil
    then show ?thesis by (simp add: R2_simps)
  next
    case (Cons c cs)
    show ?thesis
    proof (cases "isSp c \<and> spnlAt cs")
      case True
      have "length (drop (Suc (length (takeWhile isSp cs))) cs) < length s" by (simp add: Cons)
      with 1 have "noSpNl (R2 False (drop (Suc (length (takeWhile isSp cs))) cs))" by blast
      then show ?thesis using True by (simp add: Cons R2_simps)
    next
      case False
      have "length cs < length s" by (simp add: Cons)
      with 1 have "noSpNl (R2 False cs)" by blast
      moreover from False R2_head have "\<not> (isSp c \<and> spnlAt (R2 False cs))" by blast
      moreover from False have "R2 bol (c # cs) = c # R2 False cs" by (auto simp: R2_simps)
      ultimately show ?thesis by (simp add: Cons)
    qed
  qed
qed

lemma noSpNl_fix: "noSpNl s \<Longrightarrow> R2 bol s = s"
  by (induction s arbitrary: bol) (auto simp: R2_simps)


lemma noSpNl_append: "noSpNl (xs @ ys) \<Longrightarrow> noSpNl ys"
  by (induction xs) auto

lemma spnlAt_append: "spnlAt xs \<Longrightarrow> spnlAt (xs @ ys)"
  by (induction xs) (auto split: if_splits)

lemma noSpNl_prefix: "noSpNl (xs @ ys) \<Longrightarrow> noSpNl xs"
  by (induction xs) (auto dest: spnlAt_append)

definition runlen :: "jsstring \<Rightarrow> nat" where
  "runlen s = length (takeWhile (\<lambda>c. c = 10) s)"

lemma runlen_simps [simp]:
  "runlen [] = 0"
  "runlen (c # cs) = (if c = 10 then Suc (runlen cs) else 0)"
  by (simp_all add: runlen_def)

lemma star_nl: "rmatch False [Star (Ch 10)] bol s = Some (runlen s)"
  by (induction s arbitrary: bol) auto

lemma atleast_nl:
  "rmatch False [AtLeast k (Ch 10)] bol s = (if k \<le> runlen s then Some (runlen s) else None)"
proof (induction s arbitrary: k bol)
  case Nil
  show ?case by (simp add: star_nl del: rmatch.simps(8,9))
next
  case (Cons c cs)
  show ?case
  proof (cases "k = 0")
    case True
    then show ?thesis using star_nl [of bol "c # cs"] by (simp del: rmatch.simps(8,9))
  next
    case False
    then show ?thesis using Cons [of "k - 1" False] by auto
  qed
qed

definition R3 :: "bool \<Rightarrow> jsstring \<Rightarrow> jsstring" where
  "R3 bol s = replaceFrom False [AtLeast 3 (Ch 10)] (\<lambda>m. [10, 10]) bol s"

lemma R3_simps:
  "R3 bol [] = []"
  "R3 bol (c # cs) = (if 3 \<le> runlen (c # cs) then 10 # 10 # R3 False (drop (runlen (c # cs)) (c # cs))
                      else c # R3 False cs)"
proof -
  show "R3 bol [] = []" by (simp add: R3_def atleast_nl del: rmatch.simps)
  show "R3 bol (c # cs) = (if 3 \<le> runlen (c # cs) then 10 # 10 # R3 False (drop (runlen (c # cs)) (c # cs))
                      else c # R3 False cs)"
    by (simp add: R3_def atleast_nl del: rmatch.simps runlen_simps)
qed

fun no3 :: "jsstring \<Rightarrow> bool" where
  "no3 [] = True"
| "no3 (c # cs) = (runlen (c # cs) < 3 \<and> no3 cs)"

lemma runlen_drop: "runlen (drop (runlen s) s) = 0"
  by (induction s) auto

lemma R3_inv: "no3 (R3 bol s) \<and> (runlen s < 3 \<longrightarrow> runlen (R3 bol s) = runlen s)"
proof (induction s arbitrary: bol rule: length_induct)
  case (1 s)
  show ?case
  proof (cases s)
    case Nil
    then show ?thesis by (simp add: R3_simps)
  next
    case (Cons c cs)
    show ?thesis
    proof (cases "3 \<le> runlen (c # cs)")
      case True
      define rest where "rest = drop (runlen (c # cs)) (c # cs)"
      from True have "length rest < length s" by (auto simp: rest_def Cons split: if_splits)
      with 1 have ih: "no3 (R3 False rest)" "runlen rest < 3 \<longrightarrow> runlen (R3 False rest) = runlen rest"
        by blast+
      have "runlen rest = 0" unfolding rest_def by (rule runlen_drop)
      with ih have "runlen (R3 False rest) = 0" by simp
      moreover from True have "R3 bol s = 10 # 10 # R3 False rest"
        by (simp only: Cons R3_simps rest_def if_True)
      ultimately show ?thesis using ih(1) True by (simp add: Cons)
    next
      case False
      have "length cs < length s" by (simp add: Cons)
      with 1 have ih: "no3 (R3 False cs)" "runlen cs < 3 \<longrightarrow> runlen (R3 False cs) = runlen cs"
        by blast+
      from False have r: "R3 bol (c # cs) = c # R3 False cs"
        by (simp only: R3_simps if_False)
      from False ih show ?thesis unfolding Cons r by (auto split: if_splits)
    qed
  qed
qed

lemma no3_fix: "no3 s \<Longrightarrow> R3 bol s = s"
proof (induction s arbitrary: bol)
  case Nil
  show ?case by (simp add: R3_simps)
next
  case (Cons c cs)
  then have "\<not> 3 \<le> runlen (c # cs)" and "no3 cs" by auto
  with Cons.IH show ?case by (simp only: R3_simps if_False)
qed

lemma no3_append: "no3 (xs @ ys) \<Longrightarrow> no3 ys"
  by (induction xs) auto

lemma runlen_append: "runlen xs \<le> runlen (xs @ ys)"
  by (induction xs) auto

lemma no3_prefix: "no3 (xs @ ys) \<Longrightarrow> no3 xs"
proof (induction xs)
  case Nil
  show ?case by simp
next
  case (Cons c cs)
  from Cons.prems have "runlen ((c # cs) @ ys) < 3" and "no3 (cs @ ys)" by simp_all
  with runlen_append [of "c # cs" ys] Cons.IH show ?case by simp
qed

lemma R3_spnlAt: "spnlAt (R3 bol s) \<Longrightarrow> spnlAt s"
proof (induction s arbitrary: bol rule: length_induct)
  case (1 s)
  show ?case
  proof (cases s)
    case Nil
    with 1(2) show ?thesis by (simp add: R3_simps)
  next
    case (Cons c cs)
    show ?thesis
    proof (cases "3 \<le> runlen (c # cs)")
      case True
      then have "c = 10" by (auto split: if_splits)
      then show ?thesis by (simp add: Cons)
    next
      case False
      then have r: "R3 bol s = c # R3 False cs" by (simp only: Cons R3_simps if_False)
      show ?thesis
      proof (cases "isSp c")
        case True
        with 1(2) r have "spnlAt (R3 False cs)" by simp
        moreover have "length cs < length s" by (simp add: Cons)
        ultimately have "spnlAt cs" using 1(1) by blast
        with True show ?thesis by (simp add: Cons)
      next
        case F: False
        with 1(2) r show ?thesis by (simp add: Cons)
      qed
    qed
  qed
qed

lemma R3_noSpNl: "noSpNl s \<Longrightarrow> noSpNl (R3 bol s)"
proof (induction s arbitrary: bol rule: length_induct)
  case (1 s)
  show ?case
  proof (cases s)
    case Nil
    then show ?thesis by (simp add: R3_simps)
  next
    case (Cons c cs)
    show ?thesis
    proof (cases "3 \<le> runlen (c # cs)")
      case True
      define rest where "rest = drop (runlen (c # cs)) (c # cs)"
      have "s = take (runlen (c # cs)) s @ rest" by (simp add: rest_def Cons)
      with 1(2) have "noSpNl rest" by (metis noSpNl_append)
      moreover from True have "length rest < length s" by (auto simp: rest_def Cons split: if_splits)
      ultimately have "noSpNl (R3 False rest)" using 1(1) by blast
      moreover from True have "R3 bol s = 10 # 10 # R3 False rest"
        by (simp only: Cons R3_simps rest_def if_True)
      ultimately show ?thesis by simp
    next
      case False
      then have r: "R3 bol s = c # R3 False cs" by (simp only: Cons R3_simps if_False)
      from 1(2) Cons have n: "noSpNl cs" "\<not> (isSp c \<and> spnlAt cs)" by simp_all
      have "length cs < length s" by (simp add: Cons)
      with n(1) 1(1) have "noSpNl (R3 False cs)" by blast
      moreover from n(2) R3_spnlAt have "\<not> (isSp c \<and> spnlAt (R3 False cs))" by blast
      ultimately show ?thesis unfolding r by simp
    qed
  qed
qed


lemma rev_dropWhile_split:
  "x = rev (dropWhile P (rev x)) @ rev (takeWhile P (rev x))"
  by (metis rev_append rev_rev_ident takeWhile_dropWhile_id)

lemma trim_decomp: "\<exists>pre suf. s = pre @ trim s @ suf"
proof -
  have "dropWhile isWhiteSpace s
          = trim s @ rev (takeWhile isWhiteSpace (rev (dropWhile isWhiteSpace s)))"
    unfolding trim_def by (rule rev_dropWhile_split)
  moreover have "s = takeWhile isWhiteSpace s @ dropWhile isWhiteSpace s" by simp
  ultimately have "s = takeWhile isWhiteSpace s @ trim s
                         @ rev (takeWhile isWhiteSpace (rev (dropWhile isWhiteSpace s)))"
    by simp
  then show ?thesis by (intro exI)
qed

lemma trim_idem: "trim (trim s) = trim s"
proof -
  define d where "d = dropWhile isWhiteSpace s"
  define t where "t = rev (dropWhile isWhiteSpace (rev d))"
  have ts: "trim s = t" by (simp add: trim_def t_def d_def)
  have d: "d = t @ rev (takeWhile isWhiteSpace (rev d))"
    unfolding t_def by (rule rev_dropWhile_split)
  have dt: "dropWhile isWhiteSpace t = t"
  proof (cases t)
    case Nil
    then show ?thesis by simp
  next
    case (Cons x xs)
    with d have "d = x # (xs @ rev (takeWhile isWhiteSpace (rev d)))" by simp
    then have "d \<noteq> []" and "hd d = x" by (metis list.distinct(1), metis list.sel(1))
    with hd_dropWhile [of isWhiteSpace s] have "\<not> isWhiteSpace x" by (simp add: d_def)
    with Cons show ?thesis by simp
  qed
  have "trim t = rev (dropWhile isWhiteSpace (rev t))" by (simp add: trim_def dt)
  also have "\<dots> = t" by (simp add: t_def)
  finally show ?thesis by (simp add: ts)
qed

lemma set_trim: "set (trim s) \<subseteq> set s"
proof -
  from trim_decomp [of s] obtain pre suf where "s = pre @ trim s @ suf" by blast
  then have "set s = set (pre @ trim s @ suf)" by simp
  then show ?thesis by auto
qed

lemma noSpNl_trim:
  assumes "noSpNl s"
  shows "noSpNl (trim s)"
proof -
  from trim_decomp [of s] obtain pre suf where s: "s = pre @ trim s @ suf" by blast
  with assms have "noSpNl (pre @ trim s @ suf)" by simp
  then have "noSpNl (trim s @ suf)" by (rule noSpNl_append)
  then show ?thesis by (rule noSpNl_prefix)
qed

lemma no3_trim:
  assumes "no3 s"
  shows "no3 (trim s)"
proof -
  from trim_decomp [of s] obtain pre suf where s: "s = pre @ trim s @ suf" by blast
  with assms have "no3 (pre @ trim s @ suf)" by simp
  then have "no3 (trim s @ suf)" by (rule no3_append)
  then show ?thesis by (rule no3_prefix)
qed

lemma htmlToPlain_shape:
  "s \<noteq> [] \<Longrightarrow> \<exists>u. htmlToPlain s = trim (R3 True (R2 True (filter (\<lambda>c. c \<noteq> 13) u)))"
  unfolding htmlToPlain_def Let_def replaceAll_def R2_def R3_def remove_cr
  by (simp add: js_def) (rule exI, rule refl)

lemma htmlToPlain_clean:
  "13 \<notin> set (htmlToPlain s) \<and> noSpNl (htmlToPlain s) \<and> no3 (htmlToPlain s)
   \<and> trim (htmlToPlain s) = htmlToPlain s"
proof (cases "s = []")
  case True
  then show ?thesis by (simp add: htmlToPlain_def trim_def)
next
  case False
  from htmlToPlain_shape [OF False] obtain u where
    u: "htmlToPlain s = trim (R3 True (R2 True (filter (\<lambda>c. c \<noteq> 13) u)))" ..
  have s2: "set (R2 True (filter (\<lambda>c. c \<noteq> 13) u)) \<subseteq> set (filter (\<lambda>c. c \<noteq> 13) u) \<union> set [10]"
    unfolding R2_def by (rule replaceFrom_set)
  have s3: "set (R3 True (R2 True (filter (\<lambda>c. c \<noteq> 13) u)))
      \<subseteq> set (R2 True (filter (\<lambda>c. c \<noteq> 13) u)) \<union> set [10, 10]"
    unfolding R3_def by (rule replaceFrom_set)
  have "13 \<notin> set (R3 True (R2 True (filter (\<lambda>c. c \<noteq> 13) u)))"
  proof
    assume "13 \<in> set (R3 True (R2 True (filter (\<lambda>c. c \<noteq> 13) u)))"
    with s3 have "13 \<in> set (R2 True (filter (\<lambda>c. c \<noteq> 13) u)) \<union> set [10, 10]" by (rule subsetD)
    then have "13 \<in> set (R2 True (filter (\<lambda>c. c \<noteq> 13) u))" by simp
    with s2 have "13 \<in> set (filter (\<lambda>c. c \<noteq> 13) u) \<union> set [10]" by (rule subsetD)
    then show False by simp
  qed
  with set_trim have "13 \<notin> set (htmlToPlain s)" unfolding u by blast
  moreover have "noSpNl (htmlToPlain s)"
    unfolding u by (intro noSpNl_trim R3_noSpNl R2_noSpNl)
  moreover have "no3 (htmlToPlain s)"
    unfolding u using R3_inv by (intro no3_trim) blast
  moreover have "trim (htmlToPlain s) = htmlToPlain s"
    unfolding u by (rule trim_idem)
  ultimately show ?thesis by blast
qed

lemma lit_Cons: "lit (c # cs) = One (Ch (of_char c)) # lit cs"
  by (simp add: lit_def)


text \<open>
  The expression \<open>/<[^>]+>/g\<close> with which \<open>htmlToPlain\<close> strips the tags that remain, and
  the seven expressions of \<open>decodeHtmlEntities\<close>.  A string in which none of them matches
  anywhere has no tag and no entity that the conversion would decode.
\<close>

definition anyTag :: regex where
  "anyTag = [One (Ch (cu CHR ''<'')), Plus notGt, gt]"

definition entityPatterns :: "regex list" where
  "entityPatterns =
     [lit ''&nbsp;'', lit ''&amp;'', lit ''&lt;'', lit ''&gt;'', lit ''&quot;'', lit ''&#39;'',
      lit ''&#'' @ [Plus Digit, One (Ch (cu CHR '';''))]]"

text \<open>
  A replacement whose expression matches nowhere returns its argument.  Each of the seven
  tag expressions of \<open>htmlToPlain\<close> begins with \<open><\<close> and a character other than \<open>>\<close> and
  needs a \<open>>\<close> later on, so it matches only where \<open>anyTag\<close> matches.
\<close>

lemma replaceFrom_nowhere: "search ic re bol s = None \<Longrightarrow> replaceFrom ic re f bol s = s"
proof (induction s arbitrary: bol)
  case Nil
  then show ?case by (simp split: option.splits)
next
  case (Cons c cs)
  from Cons.prems have n: "rmatch ic re bol (c # cs) = None" and s: "search ic re False cs = None"
    by (auto split: option.splits)
  from Cons.IH [OF s] n show ?case by simp
qed

lemma search_None_transfer:
  assumes "search ic2 re2 bol2 s = None"
    and "\<And>u b b2 n. rmatch ic re b u = Some n \<Longrightarrow> rmatch ic2 re2 b2 u \<noteq> None"
  shows "search ic re bol s = None"
  using assms(1)
proof (induction s arbitrary: bol bol2)
  case Nil
  then have "rmatch ic2 re2 bol2 [] = None" by simp
  with assms(2) [of bol "[]" _ bol2] have "rmatch ic re bol [] = None"
    by (cases "rmatch ic re bol []") auto
  then show ?case by simp
next
  case (Cons c cs)
  from Cons.prems have n: "rmatch ic2 re2 bol2 (c # cs) = None"
    and s: "search ic2 re2 False cs = None"
    by (auto split: option.splits)
  from n assms(2) [of bol "c # cs" _ bol2] have "rmatch ic re bol (c # cs) = None"
    by (cases "rmatch ic re bol (c # cs)") auto
  with Cons.IH [OF s] show ?case by simp
qed

lemma canon_62: "canon x = 62 \<longleftrightarrow> x = 62"
  by (auto simp: canon_def)

lemma canon_60: "canon x = 60 \<longleftrightarrow> x = 60"
  by (auto simp: canon_def)

lemma accepts_gt: "accepts ic (Ch 62) c \<longleftrightarrow> c = 62"
  using canon_62 [of c] by (auto simp: canon_def)

lemma accepts_lt: "accepts ic (Ch 60) c \<longleftrightarrow> c = 60"
  using canon_60 [of c] by (auto simp: canon_def)

lemma accepts_Ch_62: "accepts ic (Ch x) 62 \<longleftrightarrow> x = 62"
  by (auto simp: canon_def split: if_splits)

lemma rmatch_consumes_gt:
  "rmatch ic re b s = Some n \<Longrightarrow> One (Ch 62) \<in> set re \<Longrightarrow> 62 \<in> set (take n s)"
proof (induction ic re b s arbitrary: n rule: rmatch.induct)
  case (5 ic a r bol c cs)
  then show ?case
    by (cases "a = Ch 62") (auto simp: accepts_gt simp del: accepts.simps split: if_splits)
qed (auto split: if_splits option.splits)

lemma star_notGt_some:
  "62 \<in> set v \<Longrightarrow> rmatch False [Star notGt, gt] b v \<noteq> None"
proof (induction v arbitrary: b)
  case Nil
  then show ?case by simp
next
  case (Cons c cs)
  show ?case
  proof (cases "c = 62")
    case True
    then show ?thesis by (simp add: notGt_def gt_def cu_def)
  next
    case False
    with Cons.prems have "62 \<in> set cs" by simp
    from Cons.IH [OF this, of False] False show ?thesis
      by (auto simp: notGt_def gt_def cu_def)
  qed
qed

lemma anyTag_some:
  "c \<noteq> 62 \<Longrightarrow> 62 \<in> set rest \<Longrightarrow> rmatch False anyTag b (60 # c # rest) \<noteq> None"
  using star_notGt_some [of rest False]
  by (auto simp: anyTag_def cu_def notGt_def)

lemma tag_rule_nowhere:
  assumes "search False anyTag True t = None" and "x \<noteq> 62" and "One (Ch 62) \<in> set r"
  shows "replaceFrom ic (One (Ch 60) # One (Ch x) # r) f True t = t"
proof (rule replaceFrom_nowhere, rule search_None_transfer [OF assms(1)])
  fix u b b2 n
  assume m: "rmatch ic (One (Ch 60) # One (Ch x) # r) b u = Some n"
  then obtain c rest where u: "u = 60 # c # rest" and a: "accepts ic (Ch x) c"
    by (cases u; cases "tl u") (auto simp: accepts_lt simp del: accepts.simps split: if_splits)
  from a assms(2) have c: "c \<noteq> 62" using accepts_Ch_62 [of ic x] by auto
  from assms(3) have "One (Ch 62) \<in> set (One (Ch 60) # One (Ch x) # r)" by simp
  from rmatch_consumes_gt [OF m this] u c have "62 \<in> set (take (n - 2) rest)"
    by (cases n; cases "n - 1") auto
  then have "62 \<in> set rest" by (rule in_set_takeD)
  with c show "rmatch False anyTag b2 u \<noteq> None" unfolding u by (rule anyTag_some)
qed

lemma htmlToPlain_fixed:
  assumes tag: "search False anyTag True t = None"
    and ent: "list_all (\<lambda>re. search False re True t = None) entityPatterns"
    and "13 \<notin> set t" and "noSpNl t" and "no3 t" and "trim t = t"
  shows "htmlToPlain t = t"
proof -
  note rule = tag_rule_nowhere [OF tag]
  have c: "of_char CHR ''<'' = (60::nat)" "cu CHR ''<'' = 60" "cu CHR ''>'' = 62"
    by (simp_all add: cu_def)
  have r1: "replaceFrom True (lit ''</li>'' @ [Star Space] @ lit ''<li>'')
              (\<lambda>m. js ''</li>\<newline><li>'') True t = t"
    unfolding lit_Cons append_Cons c by (rule rule) (simp_all add: lit_def)
  have r2: "replaceFrom True (lit ''<li'' @ [Star notGt, gt]) (\<lambda>m. js ''\<newline>- '') True t = t"
    unfolding lit_Cons append_Cons c by (rule rule) (simp_all add: lit_def gt_def cu_def)
  have r3: "replaceFrom True (lit ''</li>'') (\<lambda>m. []) True t = t"
    unfolding lit_Cons append_Cons c by (rule rule) (simp_all add: lit_def)
  have r4: "replaceFrom True (lit ''<br'' @ [Star Space, Opt (Ch (cu CHR ''/'')), gt])
              (\<lambda>m. js ''\<newline>'') True t = t"
    unfolding lit_Cons append_Cons c by (rule rule) (simp_all add: lit_def gt_def cu_def)
  have r5: "replaceFrom True (lit ''</p>'' @ [Star Space] @ lit ''<p'' @ [Star notGt, gt])
              (\<lambda>m. js ''\<newline>\<newline>'') True t = t"
    unfolding lit_Cons append_Cons c by (rule rule) (simp_all add: lit_def gt_def cu_def)
  have r6: "replaceFrom True (lit ''<p'' @ [Star notGt, gt]) (\<lambda>m. []) True t = t"
    unfolding lit_Cons append_Cons c by (rule rule) (simp_all add: lit_def gt_def cu_def)
  have r7: "replaceFrom True (lit ''</p>'') (\<lambda>m. js ''\<newline>'') True t = t"
    unfolding lit_Cons append_Cons c by (rule rule) (simp_all add: lit_def)
  have r8: "replaceFrom False [One (Ch (cu CHR ''<'')), Plus notGt, gt] (\<lambda>m. []) True t = t"
    using tag by (simp add: replaceFrom_nowhere anyTag_def)
  from ent have ents: "decodeHtmlEntities t = t"
    by (simp add: decodeHtmlEntities_def replaceAll_def entityPatterns_def replaceFrom_nowhere
        del: search.simps)
  from assms(3) have f: "filter (\<lambda>c. c \<noteq> 13) t = t" by (induction t) auto
  from assms(4) have c2: "replaceFrom False [Plus (OneOf [32, 9]), One (Ch 10)] (\<lambda>m. js ''\<newline>'') True t = t"
    using noSpNl_fix [of t True] by (simp add: R2_def js_def)
  from assms(5) have c3: "replaceFrom False [AtLeast 3 (Ch 10)] (\<lambda>m. js ''\<newline>\<newline>'') True t = t"
    using no3_fix [of t True] by (simp add: R3_def js_def)
  show ?thesis
    unfolding htmlToPlain_def Let_def replaceAll_def
    by (simp only: r1 r2 r3 r4 r5 r6 r7 r8 ents remove_cr f c2 c3 assms(6) if_cancel
        split: if_splits) simp
qed

lemma not_test: "\<not> test (ic, re) s \<longleftrightarrow> search ic re True s = None"
  by (cases "search ic re True s") (simp_all add: test_def)

text \<open>
  Claim C6, as stated: for every string \<open>s\<close>, \<open>htmlToPlain\<close> leaves \<open>htmlToPlain s\<close>
  unchanged.  The entities are decoded after the tags are stripped, and they are decoded
  one after the other, so the output can hold a tag or an entity: the output for
  \<open>&lt;b&gt;x\<close> is \<open><b>x\<close>, which a second application turns into \<open>x\<close>, and the output for
  \<open>&amp;amp;\<close> is \<open>&amp;\<close>, which a second application turns into \<open>&\<close>.
\<close>

theorem C6_not_idempotent:
  "htmlToPlain (htmlToPlain (js ''&lt;b&gt;x'')) \<noteq> htmlToPlain (js ''&lt;b&gt;x'')
   \<and> htmlToPlain (htmlToPlain (js ''&amp;amp;'')) \<noteq> htmlToPlain (js ''&amp;amp;'')"
  by (simp add: html_eval)

text \<open>
  Claim C6, amended: whenever the output \<open>htmlToPlain s\<close> holds no tag and no entity that
  the conversion decodes, that is, whenever neither \<open>anyTag\<close> nor one of \<open>entityPatterns\<close>
  matches anywhere in it, a second application returns it unchanged.  The characters
  \<open><\<close> and \<open>&\<close> by themselves do no harm.
\<close>

theorem C6_idempotent_without_markup:
  assumes "\<not> test (False, anyTag) (htmlToPlain s)"
    and "list_all (\<lambda>re. \<not> test (False, re) (htmlToPlain s)) entityPatterns"
  shows "htmlToPlain (htmlToPlain s) = htmlToPlain s"
proof -
  from assms(1) have "search False anyTag True (htmlToPlain s) = None"
    by (simp only: not_test)
  moreover from assms(2)
  have "list_all (\<lambda>re. search False re True (htmlToPlain s) = None) entityPatterns"
    by (simp only: not_test)
  ultimately show ?thesis
    using htmlToPlain_clean [of s] by (intro htmlToPlain_fixed) blast+
qed

text \<open>The theorem at an output that holds both \<open><\<close> and \<open>&\<close>.\<close>

theorem C6_idempotent_without_markup_witness:
  "htmlToPlain (js ''<p>1 &lt; 2 &amp; 3</p><br/><li>R&amp;D x</li>'')
     = js ''1 < 2 & 3\<newline>\<newline>- R&D x''
   \<and> \<not> test (False, anyTag) (htmlToPlain (js ''<p>1 &lt; 2 &amp; 3</p><br/><li>R&amp;D x</li>''))
   \<and> list_all (\<lambda>re. \<not> test (False, re)
                    (htmlToPlain (js ''<p>1 &lt; 2 &amp; 3</p><br/><li>R&amp;D x</li>'')))
        entityPatterns
   \<and> htmlToPlain (htmlToPlain (js ''<p>1 &lt; 2 &amp; 3</p><br/><li>R&amp;D x</li>''))
       = htmlToPlain (js ''<p>1 &lt; 2 &amp; 3</p><br/><li>R&amp;D x</li>'')"
proof -
  have v: "htmlToPlain (js ''<p>1 &lt; 2 &amp; 3</p><br/><li>R&amp;D x</li>'')
     = js ''1 < 2 & 3\<newline>\<newline>- R&D x''"
    by (simp add: html_eval)
  have a: "\<not> test (False, anyTag) (htmlToPlain (js ''<p>1 &lt; 2 &amp; 3</p><br/><li>R&amp;D x</li>''))"
    unfolding v by (simp add: test_def anyTag_def js_def cu_def notGt_def gt_def)
  have b: "list_all (\<lambda>re. \<not> test (False, re)
                    (htmlToPlain (js ''<p>1 &lt; 2 &amp; 3</p><br/><li>R&amp;D x</li>'')))
        entityPatterns"
    unfolding v by (simp add: test_def entityPatterns_def js_def cu_def lit_def)
  from C6_idempotent_without_markup [OF a b] a b v show ?thesis by simp
qed

section \<open>The section under a heading\<close>

lemmas section_eval =
  html_eval headingsFrom.simps exec_def test_def slice_def sliceFrom_def h16_def
  headingRegex_def extractSectionByHeading_def acHeadingPattern_def































text \<open>
  Claim C10.  Whenever \<open>extractSectionByHeading\<close> succeeds, the document is
  \<open>prefix @ raw @ sectionHtml @ suffix\<close>, where \<open>raw\<close> is a heading element whose plain text
  the expression matches, no heading element begins at a position inside \<open>sectionHtml\<close>,
  \<open>suffix\<close> is empty or begins with a heading element, and the remainder returned is
  \<open>prefix @ suffix\<close>.  So \<open>suffix\<close> is the text from the next heading element onward, and it
  is empty only if no heading element follows the matched one.
\<close>

theorem C10_frame:
  assumes "extractSectionByHeading html contains = Some r"
  shows "\<exists>prefix raw suffix.
           html = prefix @ raw @ sectionHtml r @ suffix
         \<and> withoutSectionHtml r = prefix @ suffix
         \<and> rmatch True headingRegex (prefix = []) (raw @ sectionHtml r @ suffix) = Some (length raw)
         \<and> test contains (trim (htmlToPlain raw))
         \<and> (\<forall>k < length (sectionHtml r).
               rmatch True headingRegex False (drop k (sectionHtml r @ suffix)) = None)
         \<and> (suffix = [] \<or> (\<exists>n. rmatch True headingRegex False suffix = Some n))"
proof -
  from assms obtain i where i: "findHeading contains (headingsFrom html 0) = Some i"
    by (auto simp: extract_findHeading split: option.splits)
  define a where "a = h_start (headingsFrom html 0 ! i)"
  define b where "b = h_end (headingsFrom html 0 ! i)"
  define e where "e = (if Suc i < length (headingsFrom html 0)
                       then h_start (headingsFrom html 0 ! Suc i) else length html)"
  note p = heading_positions [OF i, folded a_def b_def e_def]
  note ab = p(1) and be = p(2) and el = p(3) and m = p(4) and t = p(5) and inside = p(6)
    and n = p(7)
  from assms i have s: "sectionHtml r = slice html b e"
    and w: "withoutSectionHtml r = take a html @ drop e html"
    by (auto simp: extract_findHeading a_def b_def e_def)
  define prefix where "prefix = take a html"
  define raw where "raw = slice html a b"
  define suffix where "suffix = drop e html"
  have split2: "drop b html = sectionHtml r @ suffix"
  proof -
    have "drop b html = take (e - b) (drop b html) @ drop (e - b) (drop b html)"
      by (rule append_take_drop_id [symmetric])
    moreover have "drop (e - b) (drop b html) = drop e html" using be by simp
    ultimately show ?thesis by (simp only: s suffix_def slice_def)
  qed
  have split1: "drop a html = raw @ sectionHtml r @ suffix"
  proof -
    have "drop a html = take (b - a) (drop a html) @ drop (b - a) (drop a html)"
      by (rule append_take_drop_id [symmetric])
    moreover have "drop (b - a) (drop a html) = drop b html" using ab by simp
    ultimately have "drop a html = take (b - a) (drop a html) @ drop b html"
      by simp
    then show ?thesis by (simp only: raw_def split2 slice_def)
  qed
  have "html = take a html @ drop a html" by (rule append_take_drop_id [symmetric])
  with split1 have whole: "html = prefix @ raw @ sectionHtml r @ suffix"
    by (simp only: prefix_def)
  from w have wo: "withoutSectionHtml r = prefix @ suffix"
    by (simp add: prefix_def suffix_def)
  have "length raw = b - a" using ab be el by (simp add: raw_def slice_def)
  moreover have "(prefix = []) = (a = 0)" using ab be el by (auto simp: prefix_def)
  ultimately have hm: "rmatch True headingRegex (prefix = []) (raw @ sectionHtml r @ suffix) = Some (length raw)"
    using m split1 by simp
  from findHeading_Some [OF i] t have tst: "test contains (trim (htmlToPlain raw))"
    by (simp add: raw_def a_def b_def)
  have ins: "\<forall>k < length (sectionHtml r).
               rmatch True headingRegex False (drop k (sectionHtml r @ suffix)) = None"
  proof (intro allI impI)
    fix k assume "k < length (sectionHtml r)"
    with s be el have k: "b \<le> b + k" "b + k < e" by (simp_all add: slice_def)
    with inside have "rmatch True headingRegex (b + k = 0) (drop (b + k) html) = None" by blast
    moreover from ab have "b + k \<noteq> 0" by simp
    moreover have "drop (b + k) html = drop k (drop b html)" by (simp add: add.commute)
    ultimately show "rmatch True headingRegex False (drop k (sectionHtml r @ suffix)) = None"
      by (simp only: split2 simp_thms)
  qed
  have "e \<noteq> 0" using ab be by simp
  with n el have sf: "suffix = [] \<or> (\<exists>n. rmatch True headingRegex False suffix = Some n)"
    by (auto simp: suffix_def)
  from whole wo hm tst ins sf show ?thesis by blast
qed

theorem C10_frame_witness:
  "extractSectionByHeading (js ''<p>intro</p><h1>AC</h1><ul><li>a</li></ul><h4>Notes</h4>'')
     (False, lit ''AC'')
   = Some \<lparr>sectionHtml = js ''<ul><li>a</li></ul>'',
           withoutSectionHtml = js ''<p>intro</p><h4>Notes</h4>''\<rparr>
   \<and> (\<exists>prefix raw suffix.
         js ''<p>intro</p><h1>AC</h1><ul><li>a</li></ul><h4>Notes</h4>''
           = prefix @ raw @ js ''<ul><li>a</li></ul>'' @ suffix
       \<and> js ''<p>intro</p><h4>Notes</h4>'' = prefix @ suffix
       \<and> rmatch True headingRegex (prefix = []) (raw @ js ''<ul><li>a</li></ul>'' @ suffix)
           = Some (length raw)
       \<and> test (False, lit ''AC'') (trim (htmlToPlain raw))
       \<and> (\<forall>k < length (js ''<ul><li>a</li></ul>'').
             rmatch True headingRegex False (drop k (js ''<ul><li>a</li></ul>'' @ suffix)) = None)
       \<and> (suffix = [] \<or> (\<exists>n. rmatch True headingRegex False suffix = Some n)))"
proof -
  have h: "extractSectionByHeading
             (js ''<p>intro</p><h1>AC</h1><ul><li>a</li></ul><h4>Notes</h4>'') (False, lit ''AC'')
           = Some \<lparr>sectionHtml = js ''<ul><li>a</li></ul>'',
                   withoutSectionHtml = js ''<p>intro</p><h4>Notes</h4>''\<rparr>"
    by (simp add: section_eval)
  from C10_frame [OF h] h show ?thesis by simp
qed

section \<open>Splitting a structured document\<close>

lemma collect_map_Inr: "collect (map (\<lambda>x. Inr (g x)) xs) = Inr (map g xs)"
  by (induction xs) auto

lemma collect_strings:
  assumes "\<And>x. x \<in> set xs \<Longrightarrow> \<exists>s. f x = Inr (JStr s)"
  shows "\<exists>ss. collect (map f xs) = Inr (map JStr ss)"
  using assms
proof (induction xs)
  case Nil
  show ?case by simp
next
  case (Cons x xs)
  from Cons.prems obtain s where s: "f x = Inr (JStr s)" by auto
  from Cons obtain ss where "collect (map f xs) = Inr (map JStr ss)" by auto
  with s have "collect (map f (x # xs)) = Inr (map JStr (s # ss))" by simp
  then show ?case by blast
qed

lemma size_content:
  "orElse (getProp node ''content'') (JArr []) = JArr xs \<Longrightarrow> x \<in> set xs \<Longrightarrow> size x < size node"
  by (auto simp: orElse_def split: if_splits dest: size_getProp)

lemma shaped_renders: "shaped node \<Longrightarrow> \<exists>s. extractTextFromNode node = Inr (JStr s)"
proof (induction node rule: measure_induct_rule [of size])
  case (less node)
  show ?case
  proof (cases "truthy node")
    case False
    then show ?thesis by (simp add: extractTextFromNode.simps)
  next
    case True
    show ?thesis
    proof (cases "getProp node ''type'' = JStr (js ''text'')")
      case t: True
      with True less.prems show ?thesis
        by (subst extractTextFromNode.simps, subst (asm) shaped.simps)
           (auto split: jsval.splits)
    next
      case nt: False
      show ?thesis
      proof (cases "getProp node ''type'' = JStr (js ''paragraph'')
            \<or> getProp node ''type'' = JStr (js ''bulletList'')
            \<or> getProp node ''type'' = JStr (js ''orderedList'')
            \<or> getProp node ''type'' = JStr (js ''listItem'')")
        case known: True
        with True nt less.prems obtain xs where
          c: "orElse (getProp node ''content'') (JArr []) = JArr xs" and a: "list_all shaped xs"
          by (subst (asm) shaped.simps) (auto split: jsval.splits)
        have "\<And>x. x \<in> set xs \<Longrightarrow> \<exists>s. extractTextFromNode x = Inr (JStr s)"
          using less.IH size_content [OF c] a by (auto simp: list_all_iff)
        from collect_strings [of xs extractTextFromNode, OF this] obtain ss where
          "collect (map extractTextFromNode xs) = Inr (map JStr ss)" by blast
        with True nt known c show ?thesis
          by (subst extractTextFromNode.simps) (auto simp: Let_def)
      next
        case unknown: False
        show ?thesis
        proof (cases "\<exists>xs. getProp node ''content'' = JArr xs")
          case arr: True
          then obtain xs where c: "getProp node ''content'' = JArr xs" by blast
          with True nt unknown less.prems have a: "list_all shaped xs"
            by (subst (asm) shaped.simps) auto
          have "\<And>x. x \<in> set xs \<Longrightarrow> \<exists>s. extractTextFromNode x = Inr (JStr s)"
            using less.IH size_getProp [OF c] a by (auto simp: list_all_iff)
          from collect_strings [of xs extractTextFromNode, OF this] obtain ss where
            "collect (map extractTextFromNode xs) = Inr (map JStr ss)" by blast
          with True nt unknown c show ?thesis
            by (subst extractTextFromNode.simps) auto
        next
          case False
          with True nt unknown show ?thesis
            by (subst extractTextFromNode.simps) (auto split: jsval.splits)
        qed
      qed
    qed
  qed
qed

lemma join_strings: "join sep (map JStr ss) = joinWith sep ss"
  by (simp add: join_def comp_def)

lemma collect_rendered:
  "map f xs = map (\<lambda>s. Inr (JStr s)) ss \<Longrightarrow> collect (map f xs) = Inr (map JStr ss)"
  by (simp add: collect_map_Inr)

lemma test_empty: "\<not> test acBoundary []"
  by (simp add: test_def acBoundary_def lit_def)

lemma adfLoop_skip:
  assumes "extractTextFromNode node = Inr (JStr s)" and "trim s = []"
  shows "adfLoop (node # rest) st = adfLoop rest st"
  using assms test_empty by (simp add: Let_def)

lemma adfLoop_after:
  "foundACHeading st \<Longrightarrow> map extractTextFromNode nodes = map (\<lambda>s. Inr (JStr s)) raws \<Longrightarrow>
     adfLoop nodes st
       = Inr (st\<lparr>acContent := acContent st @ filter (\<lambda>t. t \<noteq> []) (map trim raws)\<rparr>)"
proof (induction nodes arbitrary: st raws)
  case Nil
  then show ?case by simp
next
  case (Cons node rest)
  from Cons.prems(2) obtain r rs where raws: "raws = r # rs"
    and n: "extractTextFromNode node = Inr (JStr r)"
    and rest: "map extractTextFromNode rest = map (\<lambda>s. Inr (JStr s)) rs"
    by (cases raws) auto
  show ?case
  proof (cases "trim r = []")
    case True
    with Cons.IH [OF Cons.prems(1) rest] n Cons.prems(1) show ?thesis
      by (simp add: raws Let_def)
  next
    case False
    let ?st = "st\<lparr>acContent := acContent st @ [trim r]\<rparr>"
    from Cons.prems(1) have "foundACHeading ?st" by simp
    from Cons.IH [OF this rest] n Cons.prems(1) False show ?thesis
      by (simp add: raws Let_def)
  qed
qed

lemma adfLoop_before:
  "\<not> foundACHeading st \<Longrightarrow> map extractTextFromNode nodes = map (\<lambda>s. Inr (JStr s)) raws \<Longrightarrow>
     adfLoop nodes st
       = Inr (st\<lparr>beforeAC := beforeAC st
                      @ filter (\<lambda>t. t \<noteq> [])
                          (takeWhile (\<lambda>t. \<not> test acBoundary t) (map trim raws)),
                  acContent := acContent st
                      @ filter (\<lambda>t. t \<noteq> [])
                          (drop 1 (dropWhile (\<lambda>t. \<not> test acBoundary t) (map trim raws))),
                  foundACHeading := dropWhile (\<lambda>t. \<not> test acBoundary t) (map trim raws) \<noteq> []\<rparr>)"
proof (induction nodes arbitrary: st raws)
  case Nil
  then show ?case by simp
next
  case (Cons node rest)
  from Cons.prems(2) obtain r rs where raws: "raws = r # rs"
    and n: "extractTextFromNode node = Inr (JStr r)"
    and rest: "map extractTextFromNode rest = map (\<lambda>s. Inr (JStr s)) rs"
    by (cases raws) auto
  show ?case
  proof (cases "test acBoundary (trim r)")
    case True
    have "foundACHeading (st\<lparr>foundACHeading := True\<rparr>)" by simp
    from adfLoop_after [OF this rest] n Cons.prems(1) True show ?thesis
      by (simp add: raws Let_def)
  next
    case nb: False
    show ?thesis
    proof (cases "trim r = []")
      case True
      with Cons.IH [OF Cons.prems(1) rest] n Cons.prems(1) nb show ?thesis
        by (simp add: raws Let_def)
    next
      case False
      let ?st = "st\<lparr>beforeAC := beforeAC st @ [trim r]\<rparr>"
      from Cons.prems(1) have "\<not> foundACHeading ?st" by simp
      from Cons.IH [OF this rest] n Cons.prems(1) nb False show ?thesis
        by (simp add: raws Let_def)
    qed
  qed
qed

text \<open>
  Claim C1.  Let a structured document have the top-level nodes \<open>nodes\<close>, whose rendered
  texts are \<open>raws\<close>, and call a trimmed text a boundary if the expression \<open>acBoundary\<close>
  matches it.  The description is made of the trimmed texts before the first boundary and
  the acceptance criteria of those after it, each without the empty texts, joined by
  newlines and trimmed; the first boundary itself goes to neither, and a later boundary
  goes to the acceptance criteria like any other text.  If no text is a boundary, the
  description is made of all the texts and the acceptance criteria are the empty string.
\<close>

theorem C1_split_at_first_boundary:
  assumes "orElse (getProp (JObj doc) ''content'') (JArr []) = JArr nodes"
    and "map extractTextFromNode nodes = map (\<lambda>s. Inr (JStr s)) raws"
  shows "adfToPlain (JObj doc)
           = Inr \<lparr>description =
                    trim (joinWith (js ''\<newline>'')
                      (filter (\<lambda>t. t \<noteq> [])
                        (takeWhile (\<lambda>t. \<not> test acBoundary t) (map trim raws)))),
                  acceptanceCriteria =
                    trim (joinWith (js ''\<newline>'')
                      (filter (\<lambda>t. t \<noteq> [])
                        (drop 1 (dropWhile (\<lambda>t. \<not> test acBoundary t) (map trim raws)))))\<rparr>
         \<and> ((\<forall>t \<in> set (map trim raws). \<not> test acBoundary t) \<longrightarrow>
              adfToPlain (JObj doc)
                = Inr \<lparr>description =
                         trim (joinWith (js ''\<newline>'') (filter (\<lambda>t. t \<noteq> []) (map trim raws))),
                       acceptanceCriteria = []\<rparr>)"
proof -
  have "\<not> foundACHeading \<lparr>beforeAC = [], acContent = [], foundACHeading = False\<rparr>" by simp
  from adfLoop_before [OF this assms(2)] assms(1)
  have main: "adfToPlain (JObj doc)
           = Inr \<lparr>description =
                    trim (joinWith (js ''\<newline>'')
                      (filter (\<lambda>t. t \<noteq> [])
                        (takeWhile (\<lambda>t. \<not> test acBoundary t) (map trim raws)))),
                  acceptanceCriteria =
                    trim (joinWith (js ''\<newline>'')
                      (filter (\<lambda>t. t \<noteq> [])
                        (drop 1 (dropWhile (\<lambda>t. \<not> test acBoundary t) (map trim raws)))))\<rparr>"
    by (simp add: adfToPlain_def)
  moreover have "(\<forall>t \<in> set (map trim raws). \<not> test acBoundary t) \<longrightarrow>
              adfToPlain (JObj doc)
                = Inr \<lparr>description =
                         trim (joinWith (js ''\<newline>'') (filter (\<lambda>t. t \<noteq> []) (map trim raws))),
                       acceptanceCriteria = []\<rparr>"
  proof
    assume a: "\<forall>t \<in> set (map trim raws). \<not> test acBoundary t"
    then have "takeWhile (\<lambda>t. \<not> test acBoundary t) (map trim raws) = map trim raws"
      and "dropWhile (\<lambda>t. \<not> test acBoundary t) (map trim raws) = []"
      by simp_all
    with main show "adfToPlain (JObj doc)
                = Inr \<lparr>description =
                         trim (joinWith (js ''\<newline>'') (filter (\<lambda>t. t \<noteq> []) (map trim raws))),
                       acceptanceCriteria = []\<rparr>"
      by (simp add: trim_def)
  qed
  ultimately show ?thesis by blast
qed

text \<open>
  The theorem at a document with two boundary paragraphs: the second one is part of the
  acceptance criteria.
\<close>

theorem C1_split_at_first_boundary_witness:
  "orElse (getProp (JObj [(''type'', JStr (js ''doc'')), (''content'',
       JArr [para ''a'', para '' acceptance  CRITERIA : '', para ''b'',
             para ''Acceptance Criteria'', para ''c''])]) ''content'') (JArr [])
     = JArr [para ''a'', para '' acceptance  CRITERIA : '', para ''b'',
             para ''Acceptance Criteria'', para ''c'']
   \<and> map extractTextFromNode
         [para ''a'', para '' acceptance  CRITERIA : '', para ''b'',
          para ''Acceptance Criteria'', para ''c'']
       = map (\<lambda>s. Inr (JStr s))
           [js ''a'', js '' acceptance  CRITERIA : '', js ''b'', js ''Acceptance Criteria'', js ''c'']
   \<and> adfToPlain (JObj [(''type'', JStr (js ''doc'')), (''content'',
       JArr [para ''a'', para '' acceptance  CRITERIA : '', para ''b'',
             para ''Acceptance Criteria'', para ''c''])])
       = Inr \<lparr>description = js ''a'',
              acceptanceCriteria = js ''b\<newline>Acceptance Criteria\<newline>c''\<rparr>"
proof -
  have c: "orElse (getProp (JObj [(''type'', JStr (js ''doc'')), (''content'',
       JArr [para ''a'', para '' acceptance  CRITERIA : '', para ''b'',
             para ''Acceptance Criteria'', para ''c''])]) ''content'') (JArr [])
     = JArr [para ''a'', para '' acceptance  CRITERIA : '', para ''b'',
             para ''Acceptance Criteria'', para ''c'']"
    by (simp add: orElse_def)
  have r: "map extractTextFromNode
         [para ''a'', para '' acceptance  CRITERIA : '', para ''b'',
          para ''Acceptance Criteria'', para ''c'']
       = map (\<lambda>s. Inr (JStr s))
           [js ''a'', js '' acceptance  CRITERIA : '', js ''b'', js ''Acceptance Criteria'', js ''c'']"
    by (simp add: adf_eval para_def)
  from C1_split_at_first_boundary [OF c r] c r show ?thesis
    by (simp add: acBoundary_def test_def js_def lit_def trim_def isWhiteSpace_def canon_def cu_def)
qed

text \<open>
  Claim C7, as stated: an empty list item contributes nothing.  A list item without
  content renders to the empty string, but inside a list it still is an element that
  \<open>join\<close> separates from its neighbours by a newline: the list of the items \<open>a\<close>, empty,
  \<open>b\<close> renders to \<open>- a\<close>, an empty line, \<open>- b\<close>, which is not what the list of \<open>a\<close> and \<open>b\<close>
  renders to, and the empty line reaches the acceptance criteria of the document.
\<close>

theorem empty_item_inside_list:
  "extractTextFromNode (JObj [(''type'', JStr (js ''listItem''))]) = Inr (JStr [])
   \<and> extractTextFromNode (JObj [(''type'', JStr (js ''bulletList'')),
        (''content'', JArr [JObj [(''type'', JStr (js ''listItem'')), (''content'', JArr [para ''a''])],
                            JObj [(''type'', JStr (js ''listItem''))],
                            JObj [(''type'', JStr (js ''listItem'')), (''content'', JArr [para ''b''])]])])
       = Inr (JStr (js ''- a\<newline>\<newline>- b''))
   \<and> extractTextFromNode (JObj [(''type'', JStr (js ''bulletList'')),
        (''content'', JArr [JObj [(''type'', JStr (js ''listItem'')), (''content'', JArr [para ''a''])],
                            JObj [(''type'', JStr (js ''listItem'')), (''content'', JArr [para ''b''])]])])
       = Inr (JStr (js ''- a\<newline>- b''))
   \<and> adfToPlain (JObj [(''type'', JStr (js ''doc'')), (''content'',
        JArr [para ''Acceptance Criteria'',
              JObj [(''type'', JStr (js ''bulletList'')),
                (''content'', JArr [JObj [(''type'', JStr (js ''listItem'')), (''content'', JArr [para ''a''])],
                                    JObj [(''type'', JStr (js ''listItem''))],
                                    JObj [(''type'', JStr (js ''listItem'')), (''content'', JArr [para ''b''])]])]])])
       = Inr \<lparr>description = [], acceptanceCriteria = js ''- a\<newline>\<newline>- b''\<rparr>"
  by (simp add: adf_eval para_def)

text \<open>
  Claim C7, amended.  The document of the claim is split into the description
  \<open>Desc line\<close> and the acceptance criteria \<open>- item one\<close>, \<open>- item two\<close> on two lines.  A
  list item whose children render to \<open>parts\<close> renders to these joined by a blank and
  trimmed, with \<open>- \<close> in front when that text is not empty, and to the empty string
  otherwise; a top-level list item that renders to the empty string adds nothing to either
  output.  A list renders to the texts of all its items joined by newlines, the empty
  ones included.
\<close>

theorem C7_example_and_list_items:
  "adfToPlain (JObj [(''type'', JStr (js ''doc'')), (''content'',
       JArr [para ''Desc line'', para ''Acceptance Criteria:'',
             bullets ''item one'', bullets ''item two''])])
     = Inr \<lparr>description = js ''Desc line'',
            acceptanceCriteria = js ''- item one\<newline>- item two''\<rparr>
   \<and> (getProp (JObj item) ''type'' = JStr (js ''listItem'')
        \<and> orElse (getProp (JObj item) ''content'') (JArr []) = JArr children
        \<and> map extractTextFromNode children = map (\<lambda>s. Inr (JStr s)) parts
      \<longrightarrow> extractTextFromNode (JObj item)
            = Inr (JStr (if trim (joinWith (js '' '') parts) = [] then []
                         else js ''- '' @ trim (joinWith (js '' '') parts)))
          \<and> (trim (joinWith (js '' '') parts) = []
              \<longrightarrow> adfLoop (JObj item # rest) st = adfLoop rest st))
   \<and> ((getProp (JObj lst) ''type'' = JStr (js ''bulletList'')
         \<or> getProp (JObj lst) ''type'' = JStr (js ''orderedList''))
        \<and> orElse (getProp (JObj lst) ''content'') (JArr []) = JArr items
        \<and> map extractTextFromNode items = map (\<lambda>s. Inr (JStr s)) texts
      \<longrightarrow> extractTextFromNode (JObj lst) = Inr (JStr (joinWith (js ''\<newline>'') texts)))"
proof -
  have ex: "adfToPlain (JObj [(''type'', JStr (js ''doc'')), (''content'',
       JArr [para ''Desc line'', para ''Acceptance Criteria:'',
             bullets ''item one'', bullets ''item two''])])
     = Inr \<lparr>description = js ''Desc line'',
            acceptanceCriteria = js ''- item one\<newline>- item two''\<rparr>"
    by (simp add: adf_eval para_def bullets_def)
  have li: "extractTextFromNode (JObj item)
            = Inr (JStr (if trim (joinWith (js '' '') parts) = [] then []
                         else js ''- '' @ trim (joinWith (js '' '') parts)))"
    if t: "getProp (JObj item) ''type'' = JStr (js ''listItem'')"
      and c: "orElse (getProp (JObj item) ''content'') (JArr []) = JArr children"
      and r: "map extractTextFromNode children = map (\<lambda>s. Inr (JStr s)) parts"
  proof -
    from t have d: "js ''listItem'' \<noteq> js ''text''" "js ''listItem'' \<noteq> js ''paragraph''"
      "js ''listItem'' \<noteq> js ''bulletList''" "js ''listItem'' \<noteq> js ''orderedList''"
      by (simp_all add: js_def)
    from t c d collect_rendered [OF r] show ?thesis
      by (subst extractTextFromNode.simps) (simp add: join_strings Let_def)
  qed
  have sk: "adfLoop (JObj item # rest) st = adfLoop rest st"
    if t: "getProp (JObj item) ''type'' = JStr (js ''listItem'')"
      and c: "orElse (getProp (JObj item) ''content'') (JArr []) = JArr children"
      and r: "map extractTextFromNode children = map (\<lambda>s. Inr (JStr s)) parts"
      and e: "trim (joinWith (js '' '') parts) = []"
  proof -
    from li [OF t c r] e have "extractTextFromNode (JObj item) = Inr (JStr [])" by simp
    moreover have "trim [] = []" by (simp add: trim_def)
    ultimately show ?thesis by (rule adfLoop_skip)
  qed
  have ls: "extractTextFromNode (JObj lst) = Inr (JStr (joinWith (js ''\<newline>'') texts))"
    if t: "getProp (JObj lst) ''type'' = JStr (js ''bulletList'')
           \<or> getProp (JObj lst) ''type'' = JStr (js ''orderedList'')"
      and c: "orElse (getProp (JObj lst) ''content'') (JArr []) = JArr items"
      and r: "map extractTextFromNode items = map (\<lambda>s. Inr (JStr s)) texts"
  proof -
    have d: "js ''bulletList'' \<noteq> js ''text''" "js ''bulletList'' \<noteq> js ''paragraph''"
      "js ''orderedList'' \<noteq> js ''text''" "js ''orderedList'' \<noteq> js ''paragraph''"
      by (simp_all add: js_def)
    from t c d collect_rendered [OF r] show ?thesis
      by (subst extractTextFromNode.simps) (auto simp: join_strings)
  qed
  from ex li sk ls show ?thesis by blast
qed

text \<open>
  The theorem at a list item with two paragraphs, at a top-level list item without
  content, and at an ordered list with an empty item in the middle.
\<close>

theorem C7_example_and_list_items_witness:
  "getProp (JObj [(''type'', JStr (js ''listItem'')), (''content'', JArr [para '' one'', para ''two ''])])
       ''type'' = JStr (js ''listItem'')
   \<and> orElse (getProp (JObj [(''type'', JStr (js ''listItem'')),
                            (''content'', JArr [para '' one'', para ''two ''])]) ''content'') (JArr [])
       = JArr [para '' one'', para ''two '']
   \<and> map extractTextFromNode [para '' one'', para ''two '']
       = map (\<lambda>s. Inr (JStr s)) [js '' one'', js ''two '']
   \<and> extractTextFromNode (JObj [(''type'', JStr (js ''listItem'')),
                                 (''content'', JArr [para '' one'', para ''two ''])])
       = Inr (JStr (js ''- one two''))
   \<and> orElse (getProp (JObj [(''type'', JStr (js ''listItem''))]) ''content'') (JArr []) = JArr []
   \<and> trim (joinWith (js '' '') []) = []
   \<and> extractTextFromNode (JObj [(''type'', JStr (js ''listItem''))]) = Inr (JStr [])
   \<and> adfLoop [JObj [(''type'', JStr (js ''listItem''))], para ''a'']
         \<lparr>beforeAC = [], acContent = [], foundACHeading = False\<rparr>
       = adfLoop [para ''a''] \<lparr>beforeAC = [], acContent = [], foundACHeading = False\<rparr>
   \<and> map extractTextFromNode
         [JObj [(''type'', JStr (js ''listItem'')), (''content'', JArr [para ''a''])],
          JObj [(''type'', JStr (js ''listItem''))],
          JObj [(''type'', JStr (js ''listItem'')), (''content'', JArr [para ''b''])]]
       = map (\<lambda>s. Inr (JStr s)) [js ''- a'', [], js ''- b'']
   \<and> extractTextFromNode (JObj [(''type'', JStr (js ''orderedList'')),
        (''content'', JArr [JObj [(''type'', JStr (js ''listItem'')), (''content'', JArr [para ''a''])],
                            JObj [(''type'', JStr (js ''listItem''))],
                            JObj [(''type'', JStr (js ''listItem'')), (''content'', JArr [para ''b''])]])])
       = Inr (JStr (joinWith (js ''\<newline>'') [js ''- a'', [], js ''- b'']))
   \<and> joinWith (js ''\<newline>'') [js ''- a'', [], js ''- b''] = js ''- a\<newline>\<newline>- b''"
proof -
  have t: "getProp (JObj [(''type'', JStr (js ''listItem'')), (''content'', JArr [para '' one'', para ''two ''])])
       ''type'' = JStr (js ''listItem'')" by simp
  have c: "orElse (getProp (JObj [(''type'', JStr (js ''listItem'')),
                            (''content'', JArr [para '' one'', para ''two ''])]) ''content'') (JArr [])
       = JArr [para '' one'', para ''two '']" by (simp add: orElse_def)
  have r: "map extractTextFromNode [para '' one'', para ''two '']
       = map (\<lambda>s. Inr (JStr s)) [js '' one'', js ''two '']"
    by (simp add: adf_eval para_def)
  have c0: "orElse (getProp (JObj [(''type'', JStr (js ''listItem''))]) ''content'') (JArr []) = JArr []"
    by (simp add: orElse_def)
  have e0: "trim (joinWith (js '' '') []) = []" by (simp add: trim_def)
  have r1: "map extractTextFromNode
         [JObj [(''type'', JStr (js ''listItem'')), (''content'', JArr [para ''a''])],
          JObj [(''type'', JStr (js ''listItem''))],
          JObj [(''type'', JStr (js ''listItem'')), (''content'', JArr [para ''b''])]]
       = map (\<lambda>s. Inr (JStr s)) [js ''- a'', [], js ''- b'']"
    by (simp add: adf_eval para_def)
  have j: "joinWith (js ''\<newline>'') [js ''- a'', [], js ''- b''] = js ''- a\<newline>\<newline>- b''"
    by (simp add: js_def)
  from C7_example_and_list_items
      [where lst = "[(''type'', JStr (js ''orderedList'')),
        (''content'', JArr [JObj [(''type'', JStr (js ''listItem'')), (''content'', JArr [para ''a''])],
                            JObj [(''type'', JStr (js ''listItem''))],
                            JObj [(''type'', JStr (js ''listItem'')), (''content'', JArr [para ''b''])]])]"
         and items = "[JObj [(''type'', JStr (js ''listItem'')), (''content'', JArr [para ''a''])],
                       JObj [(''type'', JStr (js ''listItem''))],
                       JObj [(''type'', JStr (js ''listItem'')), (''content'', JArr [para ''b''])]]"
         and texts = "[js ''- a'', [], js ''- b'']"] r1
  have l: "extractTextFromNode (JObj [(''type'', JStr (js ''orderedList'')),
        (''content'', JArr [JObj [(''type'', JStr (js ''listItem'')), (''content'', JArr [para ''a''])],
                            JObj [(''type'', JStr (js ''listItem''))],
                            JObj [(''type'', JStr (js ''listItem'')), (''content'', JArr [para ''b''])]])])
       = Inr (JStr (joinWith (js ''\<newline>'') [js ''- a'', [], js ''- b'']))"
    by (simp add: orElse_def)
  from C7_example_and_list_items
      [where item = "[(''type'', JStr (js ''listItem'')),
                      (''content'', JArr [para '' one'', para ''two ''])]"
         and children = "[para '' one'', para ''two '']"
         and parts = "[js '' one'', js ''two '']"]
    C7_example_and_list_items
      [where item = "[(''type'', JStr (js ''listItem''))]" and children = "[]" and parts = "[]"
         and rest = "[para ''a'']"
         and st = "\<lparr>beforeAC = [], acContent = [], foundACHeading = False\<rparr>"]
    t c r c0 e0
  have m: "extractTextFromNode (JObj [(''type'', JStr (js ''listItem'')),
                                 (''content'', JArr [para '' one'', para ''two ''])])
       = Inr (JStr (js ''- one two''))
   \<and> extractTextFromNode (JObj [(''type'', JStr (js ''listItem''))]) = Inr (JStr [])
   \<and> adfLoop [JObj [(''type'', JStr (js ''listItem''))], para ''a'']
         \<lparr>beforeAC = [], acContent = [], foundACHeading = False\<rparr>
       = adfLoop [para ''a''] \<lparr>beforeAC = [], acContent = [], foundACHeading = False\<rparr>"
    by (simp add: adf_eval para_def)
  note m1 = m [THEN conjunct1] and m2 = m [THEN conjunct2, THEN conjunct1]
    and m3 = m [THEN conjunct2, THEN conjunct2]
  from t c r m1 c0 e0 m2 m3 r1 l j show ?thesis by (intro conjI)
qed

lemma extract_falsy: "\<not> truthy node \<Longrightarrow> extractTextFromNode node = Inr (JStr [])"
  by (simp add: extractTextFromNode.simps)

lemma adfLoop_total:
  "list_all shaped nodes \<Longrightarrow> \<exists>st'. adfLoop nodes st = Inr st'"
proof (induction nodes arbitrary: st)
  case Nil
  show ?case by simp
next
  case (Cons node rest)
  from Cons.prems obtain s where "extractTextFromNode node = Inr (JStr s)"
    using shaped_renders [of node] by auto
  moreover from Cons have "\<And>st. \<exists>st'. adfLoop rest st = Inr st'" by simp
  ultimately show ?case by (simp add: Let_def)
qed

text \<open>
  Claim C2.  On the documented shapes no extractor raises an error: a node of the shape
  \<open>shaped\<close> renders to a string; \<open>adfToPlain\<close> returns on every document whose content is
  missing or a sequence of such nodes, and returns two empty strings on a document that is
  \<open>null\<close>, missing or not an object; a node of a known type without its field renders to
  the empty string, and so does a value that counts as false; a node of another type
  renders to its children joined by newlines when its content is a sequence, and to the
  empty string otherwise; \<open>htmlToPlain\<close>, a total function on strings, maps the empty
  string to itself, and called with a value that counts as false it returns the empty
  string.
\<close>

theorem C2_total_on_documented_shapes:
  "(shaped node \<longrightarrow> (\<exists>s. extractTextFromNode node = Inr (JStr s)))
   \<and> (orElse (getProp doc ''content'') (JArr []) = JArr nodes \<and> list_all shaped nodes
        \<longrightarrow> (\<exists>r. adfToPlain doc = Inr r))
   \<and> (\<not> truthy doc \<or> \<not> isObject doc
        \<longrightarrow> adfToPlain doc = Inr \<lparr>description = [], acceptanceCriteria = []\<rparr>)
   \<and> adfToPlain (JObj [(''type'', JStr (js ''doc''))])
        = Inr \<lparr>description = [], acceptanceCriteria = []\<rparr>
   \<and> (ty \<in> {js ''text'', js ''paragraph'', js ''bulletList'', js ''orderedList'', js ''listItem''}
        \<longrightarrow> extractTextFromNode (JObj [(''type'', JStr ty)]) = Inr (JStr []))
   \<and> (\<not> truthy other \<longrightarrow> extractTextFromNode other = Inr (JStr []))
   \<and> (truthy generic
        \<and> getProp generic ''type'' \<notin> JStr ` {js ''text'', js ''paragraph'', js ''bulletList'',
                                                js ''orderedList'', js ''listItem''}
        \<longrightarrow> (getProp generic ''content'' = JArr children
              \<and> map extractTextFromNode children = map (\<lambda>s. Inr (JStr s)) parts
              \<longrightarrow> extractTextFromNode generic = Inr (JStr (joinWith (js ''\<newline>'') parts)))
          \<and> ((\<forall>xs. getProp generic ''content'' \<noteq> JArr xs)
              \<longrightarrow> extractTextFromNode generic = Inr (JStr [])))
   \<and> htmlToPlain [] = []
   \<and> (\<not> truthy html \<longrightarrow> htmlToPlainOf html = Inr (JStr []))
   \<and> (isString html \<longrightarrow> (\<exists>s. htmlToPlainOf html = Inr (JStr s)))"
proof -
  have a: "shaped node \<longrightarrow> (\<exists>s. extractTextFromNode node = Inr (JStr s))"
    using shaped_renders by blast
  have b: "orElse (getProp doc ''content'') (JArr []) = JArr nodes \<and> list_all shaped nodes
        \<longrightarrow> (\<exists>r. adfToPlain doc = Inr r)"
  proof
    assume h: "orElse (getProp doc ''content'') (JArr []) = JArr nodes \<and> list_all shaped nodes"
    then obtain st' where
      "adfLoop nodes \<lparr>beforeAC = [], acContent = [], foundACHeading = False\<rparr> = Inr st'"
      using adfLoop_total by blast
    with h show "\<exists>r. adfToPlain doc = Inr r" by (simp add: adfToPlain_def)
  qed
  have c: "\<not> truthy doc \<or> \<not> isObject doc
        \<longrightarrow> adfToPlain doc = Inr \<lparr>description = [], acceptanceCriteria = []\<rparr>"
    by (simp add: adfToPlain_def)
  have d: "adfToPlain (JObj [(''type'', JStr (js ''doc''))])
        = Inr \<lparr>description = [], acceptanceCriteria = []\<rparr>"
    by (simp add: adfToPlain_def orElse_def trim_def)
  have e: "ty \<in> {js ''text'', js ''paragraph'', js ''bulletList'', js ''orderedList'', js ''listItem''}
        \<longrightarrow> extractTextFromNode (JObj [(''type'', JStr ty)]) = Inr (JStr [])"
    by (auto simp: extractTextFromNode.simps orElse_def join_def trim_def js_def)
  have f: "\<not> truthy other \<longrightarrow> extractTextFromNode other = Inr (JStr [])"
    by (simp add: extract_falsy)
  have g: "truthy generic
        \<and> getProp generic ''type'' \<notin> JStr ` {js ''text'', js ''paragraph'', js ''bulletList'',
                                                js ''orderedList'', js ''listItem''}
        \<longrightarrow> (getProp generic ''content'' = JArr children
              \<and> map extractTextFromNode children = map (\<lambda>s. Inr (JStr s)) parts
              \<longrightarrow> extractTextFromNode generic = Inr (JStr (joinWith (js ''\<newline>'') parts)))
          \<and> ((\<forall>xs. getProp generic ''content'' \<noteq> JArr xs)
              \<longrightarrow> extractTextFromNode generic = Inr (JStr []))"
  proof (intro impI conjI)
    assume h: "truthy generic
        \<and> getProp generic ''type'' \<notin> JStr ` {js ''text'', js ''paragraph'', js ''bulletList'',
                                                js ''orderedList'', js ''listItem''}"
    {
      assume k: "getProp generic ''content'' = JArr children
              \<and> map extractTextFromNode children = map (\<lambda>s. Inr (JStr s)) parts"
      then have "collect (map extractTextFromNode children) = Inr (map JStr parts)"
        by (simp add: collect_rendered)
      with h k show "extractTextFromNode generic = Inr (JStr (joinWith (js ''\<newline>'') parts))"
        by (subst extractTextFromNode.simps) (simp add: join_strings)
    }
    {
      assume "\<forall>xs. getProp generic ''content'' \<noteq> JArr xs"
      with h show "extractTextFromNode generic = Inr (JStr [])"
        by (subst extractTextFromNode.simps) (simp split: jsval.splits)
    }
  qed
  have i: "htmlToPlain [] = []" by (simp add: htmlToPlain_def)
  have j: "\<not> truthy html \<longrightarrow> htmlToPlainOf html = Inr (JStr [])"
    by (cases html) (simp_all add: i)
  have k: "isString html \<longrightarrow> (\<exists>s. htmlToPlainOf html = Inr (JStr s))"
    by (cases html) simp_all
  from a b c d e f g i j k show ?thesis by blast
qed

definition panelNode :: jsval where
  "panelNode = JObj [(''type'', JStr (js ''panel'')),
                     (''content'', JArr [para ''x'', JObj [(''type'', JStr (js ''text''))], JNull,
                                         JObj [(''type'', JStr (js ''rule''))]])]"

theorem C2_total_on_documented_shapes_witness:
  "shaped panelNode
   \<and> extractTextFromNode panelNode = Inr (JStr (js ''x\<newline>\<newline>\<newline>''))
   \<and> orElse (getProp (JObj [(''content'', JArr [panelNode])]) ''content'') (JArr []) = JArr [panelNode]
   \<and> list_all shaped [panelNode]
   \<and> adfToPlain (JObj [(''content'', JArr [panelNode])])
       = Inr \<lparr>description = js ''x'', acceptanceCriteria = []\<rparr>
   \<and> \<not> isObject (JStr (js ''doc''))
   \<and> adfToPlain (JStr (js ''doc'')) = Inr \<lparr>description = [], acceptanceCriteria = []\<rparr>
   \<and> js ''listItem'' \<in> {js ''text'', js ''paragraph'', js ''bulletList'', js ''orderedList'', js ''listItem''}
   \<and> extractTextFromNode (JObj [(''type'', JStr (js ''listItem''))]) = Inr (JStr [])
   \<and> \<not> truthy JNull
   \<and> extractTextFromNode JNull = Inr (JStr [])
   \<and> truthy panelNode
   \<and> getProp panelNode ''type'' \<notin> JStr ` {js ''text'', js ''paragraph'', js ''bulletList'',
                                                js ''orderedList'', js ''listItem''}
   \<and> getProp panelNode ''content''
       = JArr [para ''x'', JObj [(''type'', JStr (js ''text''))], JNull,
               JObj [(''type'', JStr (js ''rule''))]]
   \<and> map extractTextFromNode
         [para ''x'', JObj [(''type'', JStr (js ''text''))], JNull,
          JObj [(''type'', JStr (js ''rule''))]]
       = map (\<lambda>s. Inr (JStr s)) [js ''x'', [], [], []]
   \<and> truthy (JObj [(''type'', JStr (js ''rule'')), (''content'', JStr (js ''abc''))])
   \<and> (\<forall>xs. getProp (JObj [(''type'', JStr (js ''rule'')), (''content'', JStr (js ''abc''))])
              ''content'' \<noteq> JArr xs)
   \<and> extractTextFromNode (JObj [(''type'', JStr (js ''rule'')), (''content'', JStr (js ''abc''))])
       = Inr (JStr [])
   \<and> htmlToPlainOf JNull = Inr (JStr [])
   \<and> isString (JStr (js ''<b>x</b>''))
   \<and> htmlToPlainOf (JStr (js ''<b>x</b>'')) = Inr (JStr (js ''x''))"
proof -
  have r: "map extractTextFromNode
         [para ''x'', JObj [(''type'', JStr (js ''text''))], JNull,
          JObj [(''type'', JStr (js ''rule''))]]
       = map (\<lambda>s. Inr (JStr s)) [js ''x'', [], [], []]"
    by (simp add: adf_eval para_def)
  have h: "htmlToPlainOf (JStr (js ''<b>x</b>'')) = Inr (JStr (js ''x''))"
    by (simp add: html_eval)
  from C2_total_on_documented_shapes
      [where node = panelNode and doc = "JObj [(''content'', JArr [panelNode])]"
         and nodes = "[panelNode]" and ty = "js ''listItem''" and other = JNull
         and generic = panelNode
         and children = "[para ''x'', JObj [(''type'', JStr (js ''text''))], JNull,
                          JObj [(''type'', JStr (js ''rule''))]]"
         and parts = "[js ''x'', [], [], []]" and html = JNull]
    C2_total_on_documented_shapes
      [where doc = "JStr (js ''doc'')"
         and generic = "JObj [(''type'', JStr (js ''rule'')), (''content'', JStr (js ''abc''))]"
         and html = "JStr (js ''<b>x</b>'')"]
    r h
  show ?thesis
    by (simp add: adf_eval para_def panelNode_def)
qed

text \<open>
  Outside the documented shapes the code can throw: the content of a paragraph that is a
  string has no method \<open>map\<close>.
\<close>

lemma paragraph_with_string_content:
  "extractTextFromNode (JObj [(''type'', JStr (js ''paragraph'')), (''content'', JStr (js ''abc''))])
     = Inl TypeError"
  by (simp add: adf_eval)

section \<open>The two fields of the story\<close>

text \<open>
  Through all five steps \<open>descriptionPlain\<close> and \<open>acPlain\<close> are \<open>undefined\<close> or strings.
\<close>

definition plainOk :: "plain \<Rightarrow> bool" where
  "plainOk p = ((descriptionPlain p = JUndefined \<or> isString (descriptionPlain p))
               \<and> (acPlain p = JUndefined \<or> isString (acPlain p)))"

lemma isString_fieldToPlain: "isString (fieldToPlain h v)"
  by (cases v) (simp_all add: fieldToPlain_def)

lemma configuredField_ok: "plainOk p \<Longrightarrow> plainOk (configuredField h k data p)"
  by (auto simp: configuredField_def plainOk_def isString_fieldToPlain split: option.splits)

lemma discover_ok: "plainOk p \<Longrightarrow> plainOk (discover h data kvs p)"
  by (induction h data kvs p rule: discover.induct)
     (auto simp: plainOk_def isString_fieldToPlain Let_def)

lemma discoveredField_ok: "plainOk p \<Longrightarrow> plainOk (discoveredField h data p)"
  by (simp add: discoveredField_def discover_ok)

lemma fromDocument_ok: "plainOk p \<Longrightarrow> fromDocument h data p = Inr q \<Longrightarrow> plainOk q"
  by (auto simp: fromDocument_def plainOk_def Let_def
      split: if_splits sum.splits jsval.splits option.splits)

lemma fromRendered_ok: "plainOk p \<Longrightarrow> fromRendered data p = Inr q \<Longrightarrow> plainOk q"
  by (auto simp: fromRendered_def plainOk_def Let_def
      split: if_splits jsval.splits option.splits)

lemma htmlToPlainOf_string: "htmlToPlainOf v = Inr d \<Longrightarrow> isString d"
  by (cases v) (auto split: if_splits)

lemma finalize_ok: "plainOk p \<Longrightarrow> finalize h data p = Inr q \<Longrightarrow> plainOk q"
  by (auto simp: finalize_def plainOk_def
      split: if_splits sum.splits jsval.splits dest: htmlToPlainOf_string)

lemma orElse_string: "v = JUndefined \<or> isString v \<Longrightarrow> \<exists>s. orElse v (JStr []) = JStr s"
  by (cases v) (auto simp: orElse_def)

lemma getStoryFrom_strings:
  assumes "getStoryFrom h configuredKey key data = Inr r"
  shows "\<exists>d a. story_description r = JStr d \<and> story_acceptanceCriteria r = JStr a"
proof -
  define p0 where "p0 = \<lparr>descriptionPlain = JUndefined, acPlain = JUndefined\<rparr>"
  define p2 where "p2 = discoveredField h data (configuredField h configuredKey data p0)"
  have "plainOk p0" by (simp add: plainOk_def p0_def)
  then have ok2: "plainOk p2"
    unfolding p2_def by (intro discoveredField_ok configuredField_ok)
  from assms obtain p3 p4 p5 where
    s3: "fromDocument h data p2 = Inr p3" and s4: "fromRendered data p3 = Inr p4"
    and s5: "finalize h data p4 = Inr p5"
    and r: "story_description r = orElse (descriptionPlain p5) (JStr [])"
           "story_acceptanceCriteria r = orElse (acPlain p5) (JStr [])"
    by (auto simp: getStoryFrom_def Let_def p2_def p0_def split: sum.splits)
  from ok2 s3 have "plainOk p3" by (rule fromDocument_ok)
  then have "plainOk p4" using s4 by (rule fromRendered_ok)
  then have "plainOk p5" using s5 by (rule finalize_ok)
  then show ?thesis
    unfolding r plainOk_def using orElse_string by blast
qed

lemma adfToPlain_total:
  assumes "orElse (getProp doc ''content'') (JArr []) = JArr nodes" and "list_all shaped nodes"
  shows "\<exists>r. adfToPlain doc = Inr r"
proof -
  from assms(2) obtain st' where
    "adfLoop nodes \<lparr>beforeAC = [], acContent = [], foundACHeading = False\<rparr> = Inr st'"
    using adfLoop_total by blast
  with assms(1) show ?thesis by (simp add: adfToPlain_def)
qed

lemma adfToPlain_doc_total:
  assumes "isDoc desc"
    and "\<forall>nodes. getProp desc ''content'' = JArr nodes \<longrightarrow> list_all shaped nodes"
  shows "\<exists>r. adfToPlain desc = Inr r"
proof -
  from assms(1) obtain nodes where c: "getProp desc ''content'' = JArr nodes"
    by (cases "getProp desc ''content''") (auto simp: isDoc_def)
  with assms(2) have "list_all shaped nodes" by blast
  moreover from c have "orElse (getProp desc ''content'') (JArr []) = JArr nodes"
    by (simp add: orElse_def)
  ultimately show ?thesis by (rule adfToPlain_total [rotated])
qed

lemma fromDocument_total:
  assumes "\<forall>nodes. getProp (optProp (issueFields data) ''description'') ''content'' = JArr nodes
             \<longrightarrow> list_all shaped nodes"
  shows "\<exists>q. fromDocument h data p = Inr q"
proof (cases "isDoc (optProp (issueFields data) ''description'')")
  case True
  from adfToPlain_doc_total [OF True assms] obtain r where
    "adfToPlain (optProp (issueFields data) ''description'') = Inr r" ..
  then show ?thesis
    by (auto simp: fromDocument_def Let_def split: jsval.splits option.splits sum.splits)
next
  case False
  then show ?thesis
    by (auto simp: fromDocument_def Let_def split: jsval.splits option.splits sum.splits)
qed

lemma fromRendered_total:
  assumes "\<not> truthy (optProp (issueRenderedFields data) ''description'')
           \<or> isString (optProp (issueRenderedFields data) ''description'')"
  shows "\<exists>q. fromRendered data p = Inr q"
  using assms
  by (cases "optProp (issueRenderedFields data) ''description''")
     (auto simp: fromRendered_def Let_def split: option.splits)

lemma finalize_total:
  assumes "\<not> truthy (optProp (issueRenderedFields data) ''description'')
           \<or> isString (optProp (issueRenderedFields data) ''description'')"
  shows "\<exists>q. finalize h data p = Inr q"
  using assms
  by (cases "optProp (issueRenderedFields data) ''description''")
     (auto simp: finalize_def split: jsval.splits)

lemma getStoryFrom_total:
  assumes "\<forall>nodes. getProp (optProp (issueFields data) ''description'') ''content'' = JArr nodes
             \<longrightarrow> list_all shaped nodes"
    and "\<not> truthy (optProp (issueRenderedFields data) ''description'')
           \<or> isString (optProp (issueRenderedFields data) ''description'')"
  shows "\<exists>r. getStoryFrom h configuredKey key data = Inr r"
proof -
  define p2 where "p2 = discoveredField h data (configuredField h configuredKey data
      \<lparr>descriptionPlain = JUndefined, acPlain = JUndefined\<rparr>)"
  from fromDocument_total [OF assms(1)] obtain p3 where s3: "fromDocument h data p2 = Inr p3"
    by blast
  from fromRendered_total [OF assms(2)] obtain p4 where s4: "fromRendered data p3 = Inr p4"
    by blast
  from finalize_total [OF assms(2)] obtain p5 where s5: "finalize h data p4 = Inr p5"
    by blast
  from s3 s4 s5 show ?thesis
    by (simp add: getStoryFrom_def Let_def p2_def)
qed

lemma getStoryFrom_nothing:
  assumes "configuredKey = None" and "issueNames data = None"
    and "\<not> truthy (optProp (issueFields data) ''description'')"
    and "\<not> truthy (optProp (issueRenderedFields data) ''description'')"
  shows "\<exists>title. getStoryFrom h configuredKey key data
           = Inr \<lparr>story_key = key, story_title = title,
                  story_description = JStr [], story_acceptanceCriteria = JStr []\<rparr>"
  using assms
  by (cases "optProp (issueFields data) ''description''")
     (auto simp: getStoryFrom_def configuredField_def discoveredField_def fromDocument_def
       fromRendered_def finalize_def orElse_def Let_def trim_def)

text \<open>
  Claim C9.  Whenever \<open>getStoryFrom\<close> returns, the description and the acceptance criteria
  of the story are strings.  It returns for every response in which the description field,
  where it is a structured document, has nodes of the documented shape, and the rendered
  description is a string or is missing.  For a response without a configured field,
  without field names, without a description and without a rendered description both
  fields are the empty string.
\<close>

theorem C9_both_fields_are_strings:
  "(getStoryFrom h configuredKey key data = Inr r
      \<longrightarrow> (\<exists>d a. story_description r = JStr d \<and> story_acceptanceCriteria r = JStr a))
   \<and> ((\<forall>nodes. getProp (optProp (issueFields data) ''description'') ''content'' = JArr nodes
             \<longrightarrow> list_all shaped nodes)
        \<and> (\<not> truthy (optProp (issueRenderedFields data) ''description'')
            \<or> isString (optProp (issueRenderedFields data) ''description''))
      \<longrightarrow> (\<exists>title d a. getStoryFrom h configuredKey key data
              = Inr \<lparr>story_key = key, story_title = title,
                     story_description = JStr d, story_acceptanceCriteria = JStr a\<rparr>))
   \<and> (configuredKey = None \<and> issueNames data = None
        \<and> \<not> truthy (optProp (issueFields data) ''description'')
        \<and> \<not> truthy (optProp (issueRenderedFields data) ''description'')
      \<longrightarrow> (\<exists>title. getStoryFrom h configuredKey key data
              = Inr \<lparr>story_key = key, story_title = title,
                     story_description = JStr [], story_acceptanceCriteria = JStr []\<rparr>))"
proof (intro conjI impI)
  assume "getStoryFrom h configuredKey key data = Inr r"
  then show "\<exists>d a. story_description r = JStr d \<and> story_acceptanceCriteria r = JStr a"
    by (rule getStoryFrom_strings)
next
  assume w: "(\<forall>nodes. getProp (optProp (issueFields data) ''description'') ''content'' = JArr nodes
             \<longrightarrow> list_all shaped nodes)
        \<and> (\<not> truthy (optProp (issueRenderedFields data) ''description'')
            \<or> isString (optProp (issueRenderedFields data) ''description''))"
  then obtain s where s: "getStoryFrom h configuredKey key data = Inr s"
    using getStoryFrom_total by blast
  from getStoryFrom_strings [OF s] obtain d a where
    da: "story_description s = JStr d" "story_acceptanceCriteria s = JStr a" by blast
  from s have "story_key s = key"
    by (auto simp: getStoryFrom_def Let_def split: sum.splits)
  with da have "s = \<lparr>story_key = key, story_title = story_title s,
                     story_description = JStr d, story_acceptanceCriteria = JStr a\<rparr>"
    by simp
  with s show "\<exists>title d a. getStoryFrom h configuredKey key data
              = Inr \<lparr>story_key = key, story_title = title,
                     story_description = JStr d, story_acceptanceCriteria = JStr a\<rparr>"
    by metis
next
  assume "configuredKey = None \<and> issueNames data = None
        \<and> \<not> truthy (optProp (issueFields data) ''description'')
        \<and> \<not> truthy (optProp (issueRenderedFields data) ''description'')"
  then show "\<exists>title. getStoryFrom h configuredKey key data
              = Inr \<lparr>story_key = key, story_title = title,
                     story_description = JStr [], story_acceptanceCriteria = JStr []\<rparr>"
    using getStoryFrom_nothing by blast
qed

definition sampleHost :: host where
  "sampleHost = \<lparr>stringify = toString, parse = (\<lambda>s. None),
                  toLowerCase = map (\<lambda>c. if 65 \<le> c \<and> c \<le> 90 then c + 32 else c)\<rparr>"

definition plainIssue :: issue where
  "plainIssue =
     \<lparr>issueFields = Some [(''summary'', JStr (js ''Login'')),
                          (''description'', JStr (js ''plain text''))],
      issueRenderedFields = Some [(''description'', JStr (js ''<p>plain text</p>''))],
      issueNames = Some [(''summary'', JStr (js ''Summary''))]\<rparr>"

definition bareIssue :: issue where
  "bareIssue = \<lparr>issueFields = Some [], issueRenderedFields = None, issueNames = None\<rparr>"

definition docIssue :: issue where
  "docIssue =
     \<lparr>issueFields = Some [(''description'', JObj [(''type'', JStr (js ''doc'')), (''content'',
          JArr [para ''Desc line'', para ''Acceptance Criteria:'', bullets ''item one''])])],
      issueRenderedFields = None, issueNames = None\<rparr>"

lemmas story_eval =
  getStoryFrom_def configuredField_def discoveredField_def fromDocument_def fromRendered_def
  finalize_def optProp_def isDoc_def fieldToPlain_def sampleHost_def plainIssue_def
  bareIssue_def docIssue_def

text \<open>
  The theorem at an issue with a plain-text description and no acceptance criteria
  anywhere, at an issue whose description is a structured document, and at an issue
  with no description at all.
\<close>

theorem C9_both_fields_are_strings_witness:
  "getStoryFrom sampleHost None (js ''K-1'') plainIssue
     = Inr \<lparr>story_key = js ''K-1'', story_title = JStr (js ''Login''),
            story_description = JStr (js ''plain text''), story_acceptanceCriteria = JStr []\<rparr>
   \<and> getProp (optProp (issueFields docIssue) ''description'') ''content''
       = JArr [para ''Desc line'', para ''Acceptance Criteria:'', bullets ''item one'']
   \<and> list_all shaped [para ''Desc line'', para ''Acceptance Criteria:'', bullets ''item one'']
   \<and> \<not> truthy (optProp (issueRenderedFields docIssue) ''description'')
   \<and> getStoryFrom sampleHost None (js ''K-3'') docIssue
       = Inr \<lparr>story_key = js ''K-3'', story_title = JStr (js ''K-3''),
              story_description = JStr (js ''Desc line''),
              story_acceptanceCriteria = JStr (js ''- item one'')\<rparr>
   \<and> issueNames bareIssue = None
   \<and> \<not> truthy (optProp (issueFields bareIssue) ''description'')
   \<and> \<not> truthy (optProp (issueRenderedFields bareIssue) ''description'')
   \<and> getStoryFrom sampleHost None (js ''K-2'') bareIssue
       = Inr \<lparr>story_key = js ''K-2'', story_title = JStr (js ''K-2''),
              story_description = JStr [], story_acceptanceCriteria = JStr []\<rparr>"
proof -
  have a: "getStoryFrom sampleHost None (js ''K-1'') plainIssue
     = Inr \<lparr>story_key = js ''K-1'', story_title = JStr (js ''Login''),
            story_description = JStr (js ''plain text''), story_acceptanceCriteria = JStr []\<rparr>"
    by (simp add: story_eval section_eval orElse_def)
  have b: "getStoryFrom sampleHost None (js ''K-2'') bareIssue
       = Inr \<lparr>story_key = js ''K-2'', story_title = JStr (js ''K-2''),
              story_description = JStr [], story_acceptanceCriteria = JStr []\<rparr>"
    by (simp add: story_eval orElse_def)
  have c: "getStoryFrom sampleHost None (js ''K-3'') docIssue
       = Inr \<lparr>story_key = js ''K-3'', story_title = JStr (js ''K-3''),
              story_description = JStr (js ''Desc line''),
              story_acceptanceCriteria = JStr (js ''- item one'')\<rparr>"
    by (simp add: story_eval adf_eval para_def bullets_def)
  have s: "list_all shaped [para ''Desc line'', para ''Acceptance Criteria:'', bullets ''item one'']"
    by (simp add: adf_eval para_def bullets_def)
  from C9_both_fields_are_strings
      [where h = sampleHost and configuredKey = None and key = "js ''K-1''"
         and data = plainIssue
         and r = "\<lparr>story_key = js ''K-1'', story_title = JStr (js ''Login''),
                   story_description = JStr (js ''plain text''),
                   story_acceptanceCriteria = JStr []\<rparr>"]
    C9_both_fields_are_strings
      [where h = sampleHost and configuredKey = None and key = "js ''K-3''" and data = docIssue]
    C9_both_fields_are_strings
      [where h = sampleHost and configuredKey = None and key = "js ''K-2''" and data = bareIssue]
    a b c s
  show ?thesis by (simp add: optProp_def plainIssue_def bareIssue_def docIssue_def)
qed

end
